theory Spec2Isabelle
  imports Main "HOL-Library.Word"
begin

unbundle bit_operations_syntax

section \<open>Bytes, strings and the lookup tables\<close>

text \<open>
  A \<open>Uint8Array\<close> is a list of bytes. The values the JavaScript bit operators work on are
  32-bit integers (\<open>ToInt32\<close>); a value stored into a \<open>Uint8Array\<close> keeps its low 8 bits.
\<close>

type_synonym byte = "8 word"
type_synonym int32 = "32 word"

text \<open>
  \<open>lookupTables.js\<close>: \<open>nibbleSwapTable[i] = ((i & 0x0f) << 4) | ((i & 0xf0) >> 4)\<close>
  for \<open>i = 0 .. 255\<close>.
\<close>

definition nibbleSwapEntry :: "nat \<Rightarrow> byte" where
  "nibbleSwapEntry i =
     ucast (push_bit 4 ((of_nat i :: int32) AND 0x0f) OR signed_drop_bit 4 ((of_nat i :: int32) AND 0xf0))"

definition nibbleSwapTable :: "byte list" where
  "nibbleSwapTable = map nibbleSwapEntry [0..<256]"

text \<open>
  The inner loop of the second table, \<open>for (bit = 0; bit < 8; bit += 2)\<close>, with
  \<open>bit1 = (i >> bit) & 1\<close>, \<open>bit2 = (i >> (bit + 1)) & 1\<close> and
  \<open>swapped |= (bit1 << (bit + 1)) | (bit2 << bit)\<close>.
\<close>

function adjacentBitSwapLoop :: "int32 \<Rightarrow> nat \<Rightarrow> int32 \<Rightarrow> int32" where
  "adjacentBitSwapLoop i pos swapped =
     (if pos < 8 then
        (let bit1 = signed_drop_bit pos i AND 1;
             bit2 = signed_drop_bit (pos + 1) i AND 1
         in adjacentBitSwapLoop i (pos + 2) (swapped OR (push_bit (pos + 1) bit1 OR push_bit pos bit2)))
      else swapped)"
  by pat_completeness auto
termination
  by (relation "measure (\<lambda>(i, pos, swapped). 8 - pos)") auto

declare adjacentBitSwapLoop.simps [simp del]

definition adjacentBitSwapEntry :: "nat \<Rightarrow> byte" where
  "adjacentBitSwapEntry i = ucast (adjacentBitSwapLoop (of_nat i) 0 0)"

definition adjacentBitSwapTable :: "byte list" where
  "adjacentBitSwapTable = map adjacentBitSwapEntry [0..<256]"

text \<open>\<open>XMLConverter.nibbleSwap\<close> and \<open>XMLConverter.swapAdjacentBits\<close>: each byte through the table.\<close>

definition nibbleSwap :: "byte list \<Rightarrow> byte list" where
  "nibbleSwap binaryData = map (\<lambda>b. nibbleSwapTable ! unat b) binaryData"

definition swapAdjacentBits :: "byte list \<Rightarrow> byte list" where
  "swapAdjacentBits binaryData = map (\<lambda>b. adjacentBitSwapTable ! unat b) binaryData"

section \<open>Platform functions\<close>

text \<open>
  \<open>TypedArray.prototype.slice(start, end)\<close>: a negative index counts from the end, both
  indices are clamped to the array, and an \<open>end\<close> before \<open>start\<close> gives the empty array. It never
  raises.
\<close>

definition relativeIndex :: "int \<Rightarrow> nat \<Rightarrow> nat" where
  "relativeIndex i len = (if i < 0 then nat (max (int len + i) 0) else min (nat i) len)"

definition slice :: "'a list \<Rightarrow> int \<Rightarrow> int \<Rightarrow> 'a list" where
  "slice xs start end =
     (let k = relativeIndex start (length xs); final = relativeIndex end (length xs)
      in take (final - k) (drop k xs))"

definition sliceFrom :: "'a list \<Rightarrow> int \<Rightarrow> 'a list" where
  "sliceFrom xs start = slice xs start (int (length xs))"

section \<open>The converter\<close>

text \<open>
  The one exception the converter throws,
  \<open>new Error('Invalid binary format: incomplete number')\<close>, in \<open>decodeNumber\<close>.
\<close>

datatype error = IncompleteNumber

text \<open>
  An element is \<open>{name, attrs, children}\<close>, with \<open>attrs\<close> an array of \<open>[key, value]\<close> pairs; a
  child is an element or a text node \<open>{content}\<close>.
\<close>

datatype element = Element (name: string) (attrs: "(string \<times> string) list") (children: "child list")
  and child = ElementChild element | TextChild (content: string)

text \<open>The options object handed to the constructor (\<open>mapperModule\<close> is never read).\<close>

record converterOptions =
  swapEnabled :: bool
  swapTags :: "string list"

text \<open>
  The fields of an \<open>XMLConverter\<close>. \<open>encoder\<close> and \<open>decoder\<close> are the platform's
  \<open>TextEncoder\<close> and \<open>TextDecoder('utf-8')\<close>, which are not part of this code: \<open>encode\<close> maps a
  string to its UTF-8 bytes and \<open>decode\<close> maps bytes to a string and never throws (the decoder
  is not created \<open>fatal\<close>).
\<close>

record XMLConverter =
  encoder :: "string \<Rightarrow> byte list"
  decoder :: "byte list \<Rightarrow> string"
  accumulator :: "byte list"
  convSwapEnabled :: bool
  convSwapTags :: "string list"
  binaryData :: "byte list"

text \<open>
  The constructor; \<open>binaryData\<close> is an \<open>ArrayBuffer\<close> (\<open>Inr\<close>) or a string (\<open>Inl\<close>), which is
  encoded.
\<close>

definition newXMLConverter ::
  "(string \<Rightarrow> byte list) \<Rightarrow> (byte list \<Rightarrow> string) \<Rightarrow> converterOptions \<Rightarrow> string + byte list \<Rightarrow> XMLConverter" where
  "newXMLConverter textEncode textDecode options bin =
     \<lparr> encoder = textEncode, decoder = textDecode, accumulator = [],
       convSwapEnabled = swapEnabled options, convSwapTags = swapTags options,
       binaryData = (case bin of Inr buffer \<Rightarrow> buffer | Inl str \<Rightarrow> textEncode str) \<rparr>"

definition IS_ELEMENT :: nat where "IS_ELEMENT = 20"
definition IS_CONTENT :: nat where "IS_CONTENT = 10"

subsection \<open>The accumulator\<close>

definition addToAcc :: "byte list \<Rightarrow> XMLConverter \<Rightarrow> XMLConverter" where
  "addToAcc array conv =
     (if length array = 0 then conv
      else if length (accumulator conv) = 0 then conv\<lparr>accumulator := array\<rparr>
      else conv\<lparr>accumulator := accumulator conv @ array\<rparr>)"

subsection \<open>Numbers\<close>

text \<open>
  The \<open>do \<dots> while (number > 0 && index < 5)\<close> loop of \<open>encodeNumber\<close> and
  \<open>encodeNumberAddtoAcc\<close>; it returns the bytes written to \<open>result[index ..]\<close>. \<open>number\<close> is a
  non-negative integer; \<open>&\<close> and \<open>>>>\<close> first reduce it to 32 bits.
\<close>

function encodeNumberLoop :: "nat \<Rightarrow> nat \<Rightarrow> byte list" where
  "encodeNumberLoop number index =
     (let byte = (of_nat number :: int32) AND 0x7f;
          number' = unat (drop_bit 7 (of_nat number :: int32));
          byte' = (if number' > 0 then byte OR 0x80 else byte)
      in ucast byte' #
         (if number' > 0 \<and> index + 1 < 5 then encodeNumberLoop number' (index + 1) else []))"
  by pat_completeness auto
termination
  by (relation "measure (\<lambda>(number, index). 5 - index)") auto

declare encodeNumberLoop.simps [simp del]

definition encodeNumber :: "nat \<Rightarrow> byte list" where
  "encodeNumber number = (if number = 0 then [0] else encodeNumberLoop number 0)"

definition encodeNumberAddtoAcc :: "nat \<Rightarrow> XMLConverter \<Rightarrow> XMLConverter" where
  "encodeNumberAddtoAcc number conv =
     (if number = 0 then addToAcc [0] conv else addToAcc (encodeNumberLoop number 0) conv)"

text \<open>
  The \<open>do \<dots> while (shift < 32)\<close> loop of \<open>decodeNumber\<close>; it returns \<open>number\<close> and
  \<open>currentIndex\<close>, or the exception of the bounds check. \<open>number |= (byte & 0x7f) << shift\<close> is
  32-bit arithmetic.
\<close>

function decodeNumberLoop :: "byte list \<Rightarrow> int32 \<Rightarrow> nat \<Rightarrow> nat \<Rightarrow> error + (int32 \<times> nat)" where
  "decodeNumberLoop bin number shift currentIndex =
     (if currentIndex \<ge> length bin then Inl IncompleteNumber
      else
        (let byte = bin ! currentIndex;
             number' = number OR push_bit shift ((ucast byte :: int32) AND 0x7f)
         in if byte AND 0x80 = 0 then Inr (number', currentIndex + 1)
            else if shift + 7 < 32 then decodeNumberLoop bin number' (shift + 7) (currentIndex + 1)
            else Inr (number', currentIndex + 1)))"
  by pat_completeness auto
termination
  by (relation "measure (\<lambda>(bin, number, shift, currentIndex). 32 - shift)") auto

declare decodeNumberLoop.simps [simp del]

text \<open>
  \<open>decodeNumber\<close>. On an empty buffer \<open>this.binaryData[0]\<close> is \<open>undefined\<close>, which is not
  \<open>=== 0\<close>. The result is a signed 32-bit value.
\<close>

definition decodeNumber :: "XMLConverter \<Rightarrow> error + (int \<times> XMLConverter)" where
  "decodeNumber conv =
     (let bin = binaryData conv
      in if bin \<noteq> [] \<and> bin ! 0 = 0 then Inr (0, conv\<lparr>binaryData := sliceFrom bin 1\<rparr>)
         else
           (case decodeNumberLoop bin 0 0 0 of
              Inl e \<Rightarrow> Inl e
            | Inr (number, currentIndex) \<Rightarrow>
                Inr (sint number, conv\<lparr>binaryData := sliceFrom bin (int currentIndex)\<rparr>)))"

subsection \<open>Strings\<close>

text \<open>
  \<open>encodeStaticString\<close> and \<open>decodeStaticString\<close>, which only the branches under \<open>if (false)\<close>
  call. \<open>Math.min()\<close> of no arguments is \<open>Infinity\<close>, stored into a \<open>Uint8Array\<close> as 0.
\<close>

definition encodeStaticString :: "XMLConverter \<Rightarrow> string \<Rightarrow> byte list" where
  "encodeStaticString conv s =
     (let uint8Array = encoder conv s
      in if uint8Array = [] then [0]
         else (let smallestAscii = Min (set uint8Array)
               in smallestAscii # map (\<lambda>v. v - smallestAscii) uint8Array))"

definition decodeStaticString :: "byte list \<Rightarrow> byte list" where
  "decodeStaticString uint8Array =
     (case uint8Array of [] \<Rightarrow> [] | smallestAscii # rest \<Rightarrow> map (\<lambda>v. v + smallestAscii) rest)"

definition encodeString :: "string \<Rightarrow> XMLConverter \<Rightarrow> XMLConverter" where
  "encodeString str conv =
     (let bin = encoder conv str;
          len = length bin;
          swappedBin = (if convSwapEnabled conv then nibbleSwap bin else bin);
          encodedLength = encodeNumber len
      in addToAcc swappedBin (addToAcc encodedLength conv))"

definition encodeStringAddToAcc :: "string \<Rightarrow> bool \<Rightarrow> XMLConverter \<Rightarrow> XMLConverter" where
  "encodeStringAddToAcc str isFixed conv =
     (let bin =
            (if convSwapEnabled conv then
               (if False then encodeStaticString conv str
                else nibbleSwap (encoder conv str))
             else encoder conv str);
          len = length bin
      in addToAcc bin (encodeNumberAddtoAcc len conv))"

definition decodeString :: "bool \<Rightarrow> XMLConverter \<Rightarrow> error + (string \<times> XMLConverter)" where
  "decodeString isFixed conv =
     (case decodeNumber conv of
        Inl e \<Rightarrow> Inl e
      | Inr (len, c1) \<Rightarrow>
          (let binaryStr = slice (binaryData c1) 0 len;
               c2 = c1\<lparr>binaryData := sliceFrom (binaryData c1) len\<rparr>;
               decodedStr =
                 (if convSwapEnabled c2 then
                    (if False then decodeStaticString binaryStr
                     else (if convSwapEnabled c2 then nibbleSwap binaryStr else binaryStr))
                  else binaryStr)
           in Inr (decoder c2 decodedStr, c2)))"

subsection \<open>Elements\<close>

text \<open>
  The truthiness tests \<open>child.name\<close> and \<open>child.content\<close>: a missing property is \<open>undefined\<close>
  and the empty string is falsy.
\<close>

fun hasName :: "child \<Rightarrow> bool" where
  "hasName (ElementChild e) = (name e \<noteq> [])"
| "hasName (TextChild c) = False"

fun hasContent :: "child \<Rightarrow> bool" where
  "hasContent (ElementChild e) = False"
| "hasContent (TextChild c) = (c \<noteq> [])"

text \<open>The loop \<open>for (const [key, value] of attrs)\<close>.\<close>

fun encodeAttrs :: "(string \<times> string) list \<Rightarrow> XMLConverter \<Rightarrow> XMLConverter" where
  "encodeAttrs [] conv = conv"
| "encodeAttrs ((key, value) # rest) conv =
     encodeAttrs rest (encodeStringAddToAcc value False (encodeStringAddToAcc key True conv))"

text \<open>
  \<open>encodeElement\<close>, with its loop \<open>for (const child of children)\<close> as \<open>encodeChildren\<close>. The
  value returned is the accumulator of the resulting converter.
\<close>

fun encodeElement :: "element \<Rightarrow> XMLConverter \<Rightarrow> XMLConverter"
  and encodeChildren :: "child list \<Rightarrow> XMLConverter \<Rightarrow> XMLConverter" where
  "encodeElement (Element nm ats chs) conv =
     (let c1 = encodeStringAddToAcc nm True conv;
          attrsLength = length ats;
          c2 = encodeNumberAddtoAcc attrsLength c1;
          c3 = (if attrsLength > 0 then encodeAttrs ats c2 else c2);
          childrenLength = length chs
      in if childrenLength = 0 then encodeNumberAddtoAcc 0 (encodeNumberAddtoAcc IS_ELEMENT c3)
         else
           (let childrenType = (if hasName (chs ! 0) then IS_ELEMENT else IS_CONTENT);
                c4 = encodeNumberAddtoAcc childrenType c3;
                c5 = (if childrenType = IS_ELEMENT then encodeNumberAddtoAcc childrenLength c4 else c4)
            in encodeChildren chs c5))"
| "encodeChildren [] conv = conv"
| "encodeChildren (ElementChild e # rest) conv =
     encodeChildren rest (if name e \<noteq> [] then encodeElement e conv else conv)"
| "encodeChildren (TextChild c # rest) conv =
     encodeChildren rest (if c \<noteq> [] then encodeStringAddToAcc c False conv else conv)"

text \<open>The loop \<open>for (let i = 0; i < attrCount; i++)\<close> of \<open>decodeElement\<close>.\<close>

fun decodeAttrs :: "nat \<Rightarrow> XMLConverter \<Rightarrow> error + ((string \<times> string) list \<times> XMLConverter)" where
  "decodeAttrs 0 conv = Inr ([], conv)"
| "decodeAttrs (Suc n) conv =
     (case decodeString True conv of
        Inl e \<Rightarrow> Inl e
      | Inr (key, c1) \<Rightarrow>
          (case decodeString False c1 of
             Inl e \<Rightarrow> Inl e
           | Inr (value, c2) \<Rightarrow>
               (case decodeAttrs n c2 of
                  Inl e \<Rightarrow> Inl e
                | Inr (rest, c3) \<Rightarrow> Inr ((key, value) # rest, c3))))"

text \<open>
  \<open>decodeElement\<close>, with its loop over the children as \<open>decodeChildren\<close>. The first argument
  bounds the depth of the recursion: \<open>None\<close> means that the bound was reached, \<open>Some (Inl e)\<close>
  that the exception \<open>e\<close> was thrown.
\<close>

fun decodeElement :: "nat \<Rightarrow> XMLConverter \<Rightarrow> (error + (element \<times> XMLConverter)) option"
  and decodeChildren :: "nat \<Rightarrow> nat \<Rightarrow> XMLConverter \<Rightarrow> (error + (child list \<times> XMLConverter)) option" where
  "decodeElement 0 conv = None"
| "decodeElement (Suc fuel) conv =
     (case decodeString True conv of
        Inl e \<Rightarrow> Some (Inl e)
      | Inr (nm, c1) \<Rightarrow>
          (case decodeNumber c1 of
             Inl e \<Rightarrow> Some (Inl e)
           | Inr (attrCount, c2) \<Rightarrow>
               (case decodeAttrs (nat attrCount) c2 of
                  Inl e \<Rightarrow> Some (Inl e)
                | Inr (ats, c3) \<Rightarrow>
                    (case decodeNumber c3 of
                       Inl e \<Rightarrow> Some (Inl e)
                     | Inr (childrenType, c4) \<Rightarrow>
                         if childrenType = int IS_ELEMENT then
                           (case decodeNumber c4 of
                              Inl e \<Rightarrow> Some (Inl e)
                            | Inr (childCount, c5) \<Rightarrow>
                                if childCount > 0 then
                                  (case decodeChildren fuel (nat childCount) c5 of
                                     None \<Rightarrow> None
                                   | Some (Inl e) \<Rightarrow> Some (Inl e)
                                   | Some (Inr (chs, c6)) \<Rightarrow> Some (Inr (Element nm ats chs, c6)))
                                else Some (Inr (Element nm ats [], c5)))
                         else if childrenType = int IS_CONTENT then
                           (case decodeString False c4 of
                              Inl e \<Rightarrow> Some (Inl e)
                            | Inr (text, c5) \<Rightarrow> Some (Inr (Element nm ats [TextChild text], c5)))
                         else Some (Inr (Element nm ats [], c4))))))"
| "decodeChildren fuel 0 conv = Some (Inr ([], conv))"
| "decodeChildren fuel (Suc n) conv =
     (case decodeElement fuel conv of
        None \<Rightarrow> None
      | Some (Inl e) \<Rightarrow> Some (Inl e)
      | Some (Inr (el, c1)) \<Rightarrow>
          (case decodeChildren fuel n c1 of
             None \<Rightarrow> None
           | Some (Inl e) \<Rightarrow> Some (Inl e)
           | Some (Inr (rest, c2)) \<Rightarrow> Some (Inr (ElementChild el # rest, c2))))"

section \<open>A concrete text codec for examples\<close>

text \<open>
  On strings of ASCII characters UTF-8 is one byte per character, the character's code; this
  is \<open>TextEncoder.encode\<close> and \<open>TextDecoder.decode\<close> restricted to such strings and bytes.
\<close>

definition asciiEncode :: "string \<Rightarrow> byte list" where
  "asciiEncode str = map (\<lambda>c. of_nat (of_char c)) str"

definition asciiDecode :: "byte list \<Rightarrow> string" where
  "asciiDecode bytes = map (\<lambda>b. char_of (unat b)) bytes"

definition asciiConverter :: "converterOptions \<Rightarrow> byte list \<Rightarrow> XMLConverter" where
  "asciiConverter options buffer = newXMLConverter asciiEncode asciiDecode options (Inr buffer)"

section \<open>Auxiliary notions for the statements\<close>

text \<open>The position a bit moves to when adjacent bits are exchanged.\<close>

definition flipPos :: "nat \<Rightarrow> nat" where
  "flipPos n = (if even n then n + 1 else n - 1)"


text \<open>
  The wire format, as a function of the tree: what the encoder appends for a string, for the
  attributes and for an element. It depends on the converter only through its text encoder
  and its swap flag.
\<close>

definition payloadBytes :: "XMLConverter \<Rightarrow> string \<Rightarrow> byte list" where
  "payloadBytes conv s = (if convSwapEnabled conv then nibbleSwap (encoder conv s) else encoder conv s)"

definition stringField :: "XMLConverter \<Rightarrow> string \<Rightarrow> byte list" where
  "stringField conv s = encodeNumber (length (payloadBytes conv s)) @ payloadBytes conv s"

fun attrFields :: "XMLConverter \<Rightarrow> (string \<times> string) list \<Rightarrow> byte list" where
  "attrFields conv [] = []"
| "attrFields conv ((key, value) # rest) = stringField conv key @ stringField conv value @ attrFields conv rest"

fun elementBytes :: "XMLConverter \<Rightarrow> element \<Rightarrow> byte list"
  and childrenBytes :: "XMLConverter \<Rightarrow> child list \<Rightarrow> byte list" where
  "elementBytes conv (Element nm ats chs) =
     stringField conv nm @ encodeNumber (length ats) @ attrFields conv ats @
     (if chs = [] then encodeNumber IS_ELEMENT @ encodeNumber 0
      else if hasName (hd chs) then encodeNumber IS_ELEMENT @ encodeNumber (length chs) @ childrenBytes conv chs
      else encodeNumber IS_CONTENT @ childrenBytes conv chs)"
| "childrenBytes conv [] = []"
| "childrenBytes conv (ElementChild e # rest) =
     (if name e \<noteq> [] then elementBytes conv e else []) @ childrenBytes conv rest"
| "childrenBytes conv (TextChild c # rest) =
     (if c \<noteq> [] then stringField conv c else []) @ childrenBytes conv rest"

text \<open>
  A string the codec can carry: its encoding is shorter than \<open>2^31\<close> bytes (\<open>decodeNumber\<close>
  returns a signed 32-bit value) and the platform's decoder gives it back from its encoding.
\<close>

definition okString :: "XMLConverter \<Rightarrow> string \<Rightarrow> bool" where
  "okString conv s \<longleftrightarrow> length (encoder conv s) < 2 ^ 31 \<and> decoder conv (encoder conv s) = s"

fun okAttr :: "XMLConverter \<Rightarrow> string \<times> string \<Rightarrow> bool" where
  "okAttr conv (key, value) \<longleftrightarrow> okString conv key \<and> okString conv value"

text \<open>
  The invariants of the data model: a non-empty name, attributes a list of string pairs, and
  the children either none, or one text node, or element nodes only; with the text content
  non-empty and every string and count within the codec's range.
\<close>

fun wellFormed :: "XMLConverter \<Rightarrow> element \<Rightarrow> bool"
  and allElements :: "XMLConverter \<Rightarrow> child list \<Rightarrow> bool" where
  "wellFormed conv (Element nm ats chs) \<longleftrightarrow>
     nm \<noteq> [] \<and> okString conv nm \<and> length ats < 2 ^ 31 \<and> list_all (okAttr conv) ats \<and>
     length chs < 2 ^ 31 \<and>
     (case chs of
        [] \<Rightarrow> True
      | [TextChild c] \<Rightarrow> c \<noteq> [] \<and> okString conv c
      | _ \<Rightarrow> allElements conv chs)"
| "allElements conv [] \<longleftrightarrow> True"
| "allElements conv (ElementChild e # rest) \<longleftrightarrow> wellFormed conv e \<and> allElements conv rest"
| "allElements conv (TextChild c # rest) \<longleftrightarrow> False"

text \<open>The nesting depth of a tree, which is the depth of the decoder's recursion on its encoding.\<close>

fun depth :: "element \<Rightarrow> nat"
  and depthChildren :: "child list \<Rightarrow> nat" where
  "depth (Element nm ats chs) = Suc (depthChildren chs)"
| "depthChildren [] = 0"
| "depthChildren (ElementChild e # rest) = max (depth e) (depthChildren rest)"
| "depthChildren (TextChild c # rest) = depthChildren rest"

text \<open>
  The number of bytes at the very end of an element's encoding that are the payload of a text
  content: the content of the last leaf, when that leaf has a text child, and 0 otherwise.
\<close>

fun tailPayload :: "XMLConverter \<Rightarrow> element \<Rightarrow> nat"
  and tailPayloadChildren :: "XMLConverter \<Rightarrow> child list \<Rightarrow> nat" where
  "tailPayload conv (Element nm ats chs) = tailPayloadChildren conv chs"
| "tailPayloadChildren conv [] = 0"
| "tailPayloadChildren conv [TextChild c] = length (payloadBytes conv c)"
| "tailPayloadChildren conv [ElementChild e] = tailPayload conv e"
| "tailPayloadChildren conv (c # d # rest) = tailPayloadChildren conv (d # rest)"

section \<open>The lookup tables\<close>

lemma bit_15: "bit (15 :: 'a::len word) n \<longleftrightarrow> n < 4 \<and> n < LENGTH('a)"
proof -
  have e: "(15 :: 'a word) = mask 4" by (simp add: mask_eq_decr_exp)
  show ?thesis unfolding e bit_mask_iff by (auto simp: possible_bit_def)
qed

lemma bit_240: "bit (240 :: 'a::len word) n \<longleftrightarrow> 4 \<le> n \<and> n < 8 \<and> n < LENGTH('a)"
proof -
  have e: "(240 :: 'a word) = push_bit 4 (mask 4)" by (simp add: mask_eq_decr_exp push_bit_eq_mult)
  show ?thesis unfolding e bit_push_bit_iff bit_mask_iff by (auto simp: possible_bit_def)
qed

lemma bit_15_nat: "bit (15 :: nat) n \<longleftrightarrow> n < 4"
proof -
  have e: "(15 :: nat) = mask 4" by (simp add: mask_eq_exp_minus_1)
  show ?thesis unfolding e bit_mask_iff by (auto simp: possible_bit_def)
qed

lemma bit_240_nat: "bit (240 :: nat) n \<longleftrightarrow> 4 \<le> n \<and> n < 8"
proof -
  have e: "(240 :: nat) = push_bit 4 (mask 4)" by (simp add: mask_eq_exp_minus_1 push_bit_eq_mult)
  show ?thesis unfolding e bit_push_bit_iff bit_mask_iff by (auto simp: possible_bit_def)
qed

lemma bit_15_int: "bit (15 :: int) n \<longleftrightarrow> n < 4"
proof -
  have e: "(15 :: int) = mask 4" by (simp add: mask_eq_exp_minus_1)
  show ?thesis unfolding e bit_mask_iff by (auto simp: possible_bit_def)
qed

lemma bit_240_int: "bit (240 :: int) n \<longleftrightarrow> 4 \<le> n \<and> n < 8"
proof -
  have e: "(240 :: int) = push_bit 4 (mask 4)" by (simp add: mask_eq_exp_minus_1 push_bit_eq_mult)
  show ?thesis unfolding e bit_push_bit_iff bit_mask_iff by (auto simp: possible_bit_def)
qed

lemma nibbleSwapTable_nth: "nibbleSwapTable ! unat b = push_bit 4 b OR drop_bit 4 b"
proof -
  have "unat b < 256" using unsigned_less[of b] by simp
  then have "nibbleSwapTable ! unat b = nibbleSwapEntry (unat b)"
    by (simp add: nibbleSwapTable_def)
  also have "\<dots> = push_bit 4 b OR drop_bit 4 b"
    unfolding nibbleSwapEntry_def
    apply (rule bit_word_eqI)
    apply (auto simp add: bit_simps bit_15 bit_240 bit_15_nat bit_240_nat bit_15_int bit_240_int dest: bit_imp_le_length)
    done
  finally show ?thesis .
qed

lemma nibbleSwapTable_involution: "nibbleSwapTable ! unat (nibbleSwapTable ! unat b) = b"
  unfolding nibbleSwapTable_nth
  by (rule bit_word_eqI) (auto simp add: bit_simps)

lemma adj_step_bit:
  assumes "pos < 8"
  shows "bit (push_bit (pos + 1) (signed_drop_bit pos (i::int32) AND 1) OR push_bit pos (signed_drop_bit (pos + 1) i AND 1)) n
         \<longleftrightarrow> (n = pos + 1 \<and> bit i pos) \<or> (n = pos \<and> bit i (pos + 1))"
  unfolding bit_or_iff bit_push_bit_iff bit_and_iff bit_1_iff bit_signed_drop_bit_iff
  using assms by (auto simp add: possible_bit_def dest: bit_imp_le_length)

lemma adj_loop_bit:
  "even pos \<Longrightarrow> bit (adjacentBitSwapLoop i pos s) n \<longleftrightarrow> bit s n \<or> (pos \<le> n \<and> n < 8 \<and> bit i (flipPos n))"
proof (induction i pos s rule: adjacentBitSwapLoop.induct)
  case (1 i pos swapped)
  show ?case
  proof (cases "pos < 8")
    case True
    have ev: "even (pos + 2)" using "1.prems" by simp
    have step: "bit (adjacentBitSwapLoop i pos swapped) n \<longleftrightarrow>
        bit (swapped OR (push_bit (pos + 1) (signed_drop_bit pos i AND 1) OR push_bit pos (signed_drop_bit (pos + 1) i AND 1))) n
        \<or> (pos + 2 \<le> n \<and> n < 8 \<and> bit i (flipPos n))"
      using "1.IH"[OF True refl refl ev] True
      by (subst adjacentBitSwapLoop.simps) (simp only: Let_def if_True)
    have cases_n: "pos \<le> n \<longleftrightarrow> n = pos \<or> n = pos + 1 \<or> pos + 2 \<le> n" by arith
    have f1: "flipPos pos = pos + 1" using "1.prems" by (simp add: flipPos_def)
    have f2: "flipPos (pos + 1) = pos" using "1.prems" by (simp add: flipPos_def)
    have p7: "pos < 7" using True "1.prems" by (auto elim!: evenE)
    show ?thesis
      unfolding step bit_or_iff[of swapped] adj_step_bit[OF True] cases_n
      using True f1 f2 p7 by auto
  next
    case False
    then show ?thesis by (subst adjacentBitSwapLoop.simps) auto
  qed
qed

lemma adjacentBitSwapTable_bit:
  "bit (adjacentBitSwapTable ! unat (b::byte)) n \<longleftrightarrow> n < 8 \<and> bit b (flipPos n)"
proof -
  have "unat b < 256" using unsigned_less[of b] by simp
  then have "adjacentBitSwapTable ! unat b = adjacentBitSwapEntry (unat b)"
    by (simp add: adjacentBitSwapTable_def)
  then show ?thesis
    by (auto simp add: adjacentBitSwapEntry_def bit_simps adj_loop_bit flipPos_def dest: bit_imp_le_length)
qed

lemma flipPos_invol: "flipPos (flipPos n) = n"
  by (auto simp: flipPos_def)

lemma flipPos_lt8: "n < 8 \<Longrightarrow> flipPos n < 8"
  by (auto simp: flipPos_def elim!: evenE) 

lemma adjacentBitSwapTable_involution: "adjacentBitSwapTable ! unat (adjacentBitSwapTable ! unat b) = (b::byte)"
  by (rule bit_word_eqI) (simp add: adjacentBitSwapTable_bit flipPos_invol flipPos_lt8)

text \<open>
  C5. Each of the two 256-entry tables is its own inverse: looking a byte up twice gives the
  byte back, for the nibble swap and for the adjacent-bit swap; and each table, as a function
  on the byte values 0 .. 255, is a bijection.
\<close>

theorem lookup_tables_self_inverse_bijective:
  "nibbleSwapTable ! unat (nibbleSwapTable ! unat b) = b
   \<and> adjacentBitSwapTable ! unat (adjacentBitSwapTable ! unat b) = b
   \<and> length nibbleSwapTable = 256 \<and> length adjacentBitSwapTable = 256
   \<and> bij (\<lambda>b :: byte. nibbleSwapTable ! unat b)
   \<and> bij (\<lambda>b :: byte. adjacentBitSwapTable ! unat b)"
proof -
  have n: "bij (\<lambda>b :: byte. nibbleSwapTable ! unat b)"
    by (rule involuntory_imp_bij) (rule nibbleSwapTable_involution)
  have a: "bij (\<lambda>b :: byte. adjacentBitSwapTable ! unat b)"
    by (rule involuntory_imp_bij) (rule adjacentBitSwapTable_involution)
  show ?thesis
    using n a nibbleSwapTable_involution adjacentBitSwapTable_involution
    by (simp add: nibbleSwapTable_def adjacentBitSwapTable_def)
qed

section \<open>Numbers\<close>

lemma x7f_mask: "(0x7f :: 'a::len word) = mask 7"
  by (simp add: mask_eq_decr_exp)

lemma x80_push: "(0x80 :: 'a::len word) = push_bit 7 1"
  by (simp add: push_bit_eq_mult)

lemma bit_x80: "bit (0x80 :: 'a::len word) n \<longleftrightarrow> n = 7 \<and> 7 < LENGTH('a)"
  unfolding x80_push bit_push_bit_iff bit_1_iff by (auto simp: possible_bit_def)

lemma bit_x80_int: "bit (0x80 :: int) n \<longleftrightarrow> n = 7"
proof -
  have e: "(0x80 :: int) = push_bit 7 1" by (simp add: push_bit_eq_mult)
  show ?thesis unfolding e bit_push_bit_iff bit_1_iff by (auto simp: possible_bit_def)
qed

lemma and_x7f: "(w :: 'a::len word) AND 0x7f = take_bit 7 w"
  unfolding x7f_mask by (simp add: take_bit_eq_mask)

lemma last_byte_stop: "(ucast ((w::int32) AND 0x7f) :: byte) AND 0x80 = 0"
  unfolding and_x7f
  by (rule bit_word_eqI) (auto simp add: bit_simps bit_x80 bit_x80_int)

lemma cont_byte_go: "(ucast ((w::int32) AND 0x7f OR 0x80) :: byte) AND 0x80 \<noteq> 0"
proof -
  have "bit ((ucast ((w::int32) AND 0x7f OR 0x80) :: byte) AND 0x80) 7"
    unfolding and_x7f by (simp add: bit_simps bit_x80 bit_x80_int)
  then show ?thesis by auto
qed

lemma last_byte_payload: "(ucast (ucast ((w::int32) AND 0x7f) :: byte) :: int32) AND 0x7f = w AND 0x7f"
  unfolding and_x7f
  by (rule bit_word_eqI) (auto simp add: bit_simps)

lemma cont_byte_payload: "(ucast (ucast ((w::int32) AND 0x7f OR 0x80) :: byte) :: int32) AND 0x7f = w AND 0x7f"
  unfolding and_x7f
  by (rule bit_word_eqI) (auto simp add: bit_simps bit_x80 bit_x80_int)

lemma split_low7: "push_bit s ((w::int32) AND 0x7f) OR push_bit (s + 7) (drop_bit 7 w) = push_bit s w"
  unfolding and_x7f
proof (rule bit_word_eqI)
  fix n assume "n < LENGTH(32)"
  show "bit (push_bit s (take_bit 7 w) OR push_bit (s + 7) (drop_bit 7 w)) n = bit (push_bit s w) n"
    by (cases "n - s < 7") (auto simp add: bit_simps)
qed

lemma unat_drop7: "n < 2 ^ 32 \<Longrightarrow> unat (drop_bit 7 (of_nat n :: int32)) = n div 128"
proof -
  assume a: "n < 2 ^ 32"
  have "unat (drop_bit 7 (of_nat n :: int32)) = drop_bit 7 (unat (of_nat n :: int32))"
    by (rule unat_drop_bit_eq)
  also have "unat (of_nat n :: int32) = n" using a by (simp add: unat_of_nat)
  finally show ?thesis by (simp add: drop_bit_eq_div)
qed

lemma of_nat_div128: "n < 2 ^ 32 \<Longrightarrow> (of_nat (n div 128) :: int32) = drop_bit 7 (of_nat n)"
proof -
  assume a: "n < 2 ^ 32"
  then have "n div 128 < 2 ^ 32" by (simp add: less_imp_le_nat div_le_dividend le_less_trans[OF div_le_dividend])
  then have "unat (of_nat (n div 128) :: int32) = n div 128" by (simp add: unat_of_nat)
  then show ?thesis using unat_drop7[OF a] by (simp add: word_unat_eq_iff)
qed

lemma small_and_7f: "n div 128 = 0 \<Longrightarrow> (of_nat n :: int32) AND 0x7f = of_nat n"
  unfolding and_x7f
proof -
  assume "n div 128 = 0"
  then have "n < 2 ^ 7" by (simp add: div_eq_0_iff)
  then show "take_bit 7 (of_nat n :: int32) = of_nat n"
    by (simp only: take_bit_of_nat take_bit_nat_eq_self)
qed

lemma encodeNumberLoop_last:
  assumes "n div 128 = 0" "n < 2 ^ 32"
  shows "encodeNumberLoop n index = [ucast ((of_nat n :: int32) AND 0x7f)]"
  using assms by (subst encodeNumberLoop.simps) (simp add: unat_drop7 Let_def)

lemma encodeNumberLoop_more:
  assumes "n div 128 > 0" "n < 2 ^ 32" "index + 1 < 5"
  shows "encodeNumberLoop n index = ucast ((of_nat n :: int32) AND 0x7f OR 0x80) # encodeNumberLoop (n div 128) (index + 1)"
  using assms by (subst encodeNumberLoop.simps) (simp add: unat_drop7 Let_def)

lemma decode_encode_loop:
  assumes "0 < n" "n < 2 ^ 32" "n < 2 ^ (7 * (5 - index))" "index < 5" "length pre = index"
  shows "decodeNumberLoop (pre @ encodeNumberLoop n index @ rest) acc (7 * index) index
         = Inr (acc OR push_bit (7 * index) (of_nat n), index + length (encodeNumberLoop n index))"
  using assms
proof (induction n index arbitrary: pre acc rule: encodeNumberLoop.induct)
  case (1 n index)
  show ?case
  proof (cases "n div 128 = 0")
    case True
    define b where "b = (ucast ((of_nat n :: int32) AND 0x7f) :: byte)"
    have enc: "encodeNumberLoop n index = [b]"
      unfolding b_def using True "1.prems" by (simp only: encodeNumberLoop_last)
    have stop: "b AND 0x80 = 0" unfolding b_def by (rule last_byte_stop)
    have pay: "(ucast b :: int32) AND 0x7f = of_nat n"
      unfolding b_def last_byte_payload using True by (rule small_and_7f)
    show ?thesis
      unfolding enc using "1.prems"(5)
      by (subst decodeNumberLoop.simps) (simp add: Let_def nth_append stop pay del: push_bit_and)
  next
    case False
    have idx: "index + 1 < 5"
    proof (rule ccontr)
      assume "\<not> index + 1 < 5"
      then have "index = 4" using "1.prems" by simp
      then have "n < 128" using "1.prems" by simp
      then show False using False by simp
    qed
    define b where "b = (ucast ((of_nat n :: int32) AND 0x7f OR 0x80) :: byte)"
    have enc: "encodeNumberLoop n index = b # encodeNumberLoop (n div 128) (index + 1)"
      unfolding b_def using False "1.prems" idx by (simp only: encodeNumberLoop_more)
    have go: "b AND 0x80 \<noteq> 0" unfolding b_def by (rule cont_byte_go)
    have pay: "(ucast b :: int32) AND 0x7f = of_nat n AND 0x7f"
      unfolding b_def by (rule cont_byte_payload)
    have n'pos: "0 < n div 128" using False by simp
    have n'32: "n div 128 < 2 ^ 32" using "1.prems"(2) by (simp add: le_less_trans[OF div_le_dividend])
    have n'bound: "n div 128 < 2 ^ (7 * (5 - (index + 1)))"
    proof -
      have "5 - index = Suc (5 - (index + 1))" using idx by simp
      then have "n < 128 * 2 ^ (7 * (5 - (index + 1)))" using "1.prems"(3) by (simp add: power_add)
      then show ?thesis by (simp add: less_mult_imp_div_less mult.commute)
    qed
    have un: "unat (drop_bit 7 (of_nat n :: int32)) = n div 128" using "1.prems" by (simp add: unat_drop7)
    have IH: "decodeNumberLoop ((pre @ [b]) @ encodeNumberLoop (n div 128) (index + 1) @ rest)
                 (acc OR push_bit (7 * index) ((of_nat n :: int32) AND 0x7f)) (7 * (index + 1)) (index + 1)
          = Inr ((acc OR push_bit (7 * index) ((of_nat n :: int32) AND 0x7f)) OR push_bit (7 * (index + 1)) (of_nat (n div 128)),
                 (index + 1) + length (encodeNumberLoop (n div 128) (index + 1)))"
      apply (rule "1.IH"[OF refl un[symmetric] refl])
      using n'pos idx n'32 n'bound "1.prems" un by simp_all
    have shift: "7 * index + 7 < 32" using idx by simp
    have comb: "(acc OR push_bit (7 * index) ((of_nat n :: int32) AND 0x7f)) OR push_bit (7 * index + 7) (of_nat (n div 128))
          = acc OR push_bit (7 * index) (of_nat n)"
      unfolding of_nat_div128[OF "1.prems"(2)] or.assoc split_low7 ..
    have app: "(pre @ [b]) @ encodeNumberLoop (n div 128) (index + 1) @ rest
          = pre @ b # encodeNumberLoop (n div 128) (index + 1) @ rest" by simp
    have s7: "7 * (index + 1) = 7 * index + 7" by simp
    have IH2: "decodeNumberLoop (pre @ b # encodeNumberLoop (n div 128) (index + 1) @ rest)
                 (acc OR push_bit (7 * index) ((of_nat n :: int32) AND 0x7f)) (7 * index + 7) (index + 1)
          = Inr (acc OR push_bit (7 * index) (of_nat n),
                 (index + 1) + length (encodeNumberLoop (n div 128) (index + 1)))"
      using IH unfolding s7 comb app .
    show ?thesis
      unfolding enc using "1.prems"(5) shift IH2
      by (subst decodeNumberLoop.simps) (simp add: Let_def nth_append go pay del: push_bit_and)
  qed
qed

lemma sliceFrom_drop: "0 \<le> i \<Longrightarrow> sliceFrom xs i = drop (nat i) xs"
  by (auto simp add: sliceFrom_def slice_def relativeIndex_def Let_def min_def)

lemma slice_take: "0 \<le> i \<Longrightarrow> slice xs 0 i = take (nat i) xs"
  by (auto simp add: slice_def relativeIndex_def Let_def min_def)

lemma encodeNumberLoop_nonempty: "encodeNumberLoop n index \<noteq> []"
  by (subst encodeNumberLoop.simps) (simp add: Let_def)

lemma encodeNumberLoop_hd:
  assumes "0 < n" "n < 2 ^ 32"
  shows "encodeNumberLoop n 0 ! 0 \<noteq> 0"
proof (cases "n div 128 = 0")
  case True
  then have lt: "n < 2 ^ 7" by (simp add: div_eq_0_iff)
  have "(of_nat n :: int32) AND 0x7f = of_nat n" using True by (rule small_and_7f)
  then have e: "encodeNumberLoop n 0 ! 0 = (ucast (of_nat n :: int32) :: byte)"
    using encodeNumberLoop_last[OF True assms(2), of 0] by simp
  have "(ucast (of_nat n :: int32) :: byte) = of_nat n"
    using lt by (simp add: unsigned_of_nat take_bit_nat_eq_self)
  then have "unat (ucast (of_nat n :: int32) :: byte) = n"
    using lt by (simp add: unat_of_nat)
  then show ?thesis using assms(1) e by auto
next
  case False
  then have "encodeNumberLoop n 0 ! 0 = ucast ((of_nat n :: int32) AND 0x7f OR 0x80)"
    using encodeNumberLoop_more[of n 0] assms by simp
  then show ?thesis using cont_byte_go[of "of_nat n"] by auto
qed

lemma sint_of_nat_small: "n < 2 ^ 31 \<Longrightarrow> sint (of_nat n :: int32) = int n"
  by (simp add: signed_of_nat signed_take_bit_int_eq_self)

lemma decodeNumber_encodeNumber:
  assumes "n < 2 ^ 31" "binaryData conv = encodeNumber n @ rest"
  shows "decodeNumber conv = Inr (int n, conv\<lparr>binaryData := rest\<rparr>)"
proof (cases "n = 0")
  case True
  then show ?thesis using assms by (simp add: decodeNumber_def encodeNumber_def sliceFrom_drop)
next
  case False
  have n32: "n < 2 ^ 32" using assms(1) by simp
  have bin: "binaryData conv = encodeNumberLoop n 0 @ rest"
    using assms False by (simp add: encodeNumber_def)
  have ne: "encodeNumberLoop n 0 \<noteq> []" by (rule encodeNumberLoop_nonempty)
  have hd: "binaryData conv ! 0 \<noteq> 0"
    using encodeNumberLoop_hd[of n] False n32 ne unfolding bin by (simp add: nth_append)
  have loop: "decodeNumberLoop (binaryData conv) 0 0 0 = Inr (of_nat n, length (encodeNumberLoop n 0))"
    using decode_encode_loop[of n 0 "[]" rest 0] False n32 unfolding bin by simp
  show ?thesis
    using hd loop assms(1) unfolding decodeNumber_def
    by (simp add: Let_def sint_of_nat_small sliceFrom_drop bin)
qed

lemma decodeNumberLoop_exhausted:
  assumes "\<forall>b\<in>set bs. b AND 0x80 \<noteq> 0" "length bs < 5" "shift = 7 * idx" "idx \<le> length bs"
  shows "decodeNumberLoop bs acc shift idx = Inl IncompleteNumber"
  using assms
proof (induction bs acc shift idx rule: decodeNumberLoop.induct)
  case (1 bin number shift currentIndex)
  show ?case
  proof (cases "currentIndex \<ge> length bin")
    case True
    then show ?thesis by (subst decodeNumberLoop.simps) simp
  next
    case False
    then have mem: "bin ! currentIndex \<in> set bin" by simp
    then have cont: "bin ! currentIndex AND 0x80 \<noteq> 0" using "1.prems"(1) by blast
    have sh: "shift + 7 < 32" using False "1.prems" by simp
    have "decodeNumberLoop bin (number OR push_bit shift (ucast (bin ! currentIndex) AND 0x7f)) (shift + 7) (currentIndex + 1)
          = Inl IncompleteNumber"
      apply (rule "1.IH"[OF False refl refl cont sh])
      using "1.prems" False by simp_all
    then show ?thesis
      using False cont sh by (subst decodeNumberLoop.simps) (simp add: Let_def del: push_bit_and)
  qed
qed

text \<open>
  C7. \<open>decodeNumber\<close> on an empty buffer throws the "incomplete number" error (the
  specification's MalformedVarInt) instead of returning 0; and so it does on every buffer that
  ends before the loop's bound of five bytes is reached and whose bytes all have the
  continuation bit set.
\<close>

theorem decodeNumber_incomplete:
  "decodeNumber (conv\<lparr>binaryData := []\<rparr>) = Inl IncompleteNumber
   \<and> (length bs < 5 \<and> (\<forall>b\<in>set bs. b AND 0x80 \<noteq> 0)
        \<longrightarrow> decodeNumber (conv\<lparr>binaryData := bs\<rparr>) = Inl IncompleteNumber)"
proof -
  have gen: "decodeNumber (conv\<lparr>binaryData := bs\<rparr>) = Inl IncompleteNumber"
    if len: "length bs < 5" and cont: "\<forall>b\<in>set bs. b AND 0x80 \<noteq> 0" for bs
  proof -
    have loop: "decodeNumberLoop bs 0 0 0 = Inl IncompleteNumber"
      using decodeNumberLoop_exhausted[OF cont len, of 0 0 0] by simp
    have "bs \<noteq> [] \<Longrightarrow> bs ! 0 \<noteq> 0"
    proof
      assume ne: "bs \<noteq> []" and z: "bs ! 0 = 0"
      from ne have "bs ! 0 \<in> set bs" by (simp del: nth_mem add: nth_mem[of 0 bs])
      then have "bs ! 0 AND 0x80 \<noteq> 0" using cont by blast
      then show False using z by simp
    qed
    then show ?thesis using loop by (auto simp add: decodeNumber_def Let_def)
  qed
  have "decodeNumber (conv\<lparr>binaryData := []\<rparr>) = Inl IncompleteNumber"
    using gen[of "[]"] by simp
  then show ?thesis using gen by blast
qed

theorem decodeNumber_incomplete_witness:
  "length [0x80, 0xff :: byte] < 5 \<and> (0x80 :: byte) AND 0x80 \<noteq> 0 \<and> (0xff :: byte) AND 0x80 \<noteq> 0
   \<and> decodeNumber (asciiConverter \<lparr>swapEnabled = False, swapTags = []\<rparr> [0x80, 0xff]) = Inl IncompleteNumber
   \<and> decodeNumber (asciiConverter \<lparr>swapEnabled = False, swapTags = []\<rparr> []) = Inl IncompleteNumber"
proof -
  have h: "length [0x80, 0xff :: byte] < 5 \<and> (\<forall>b\<in>set [0x80, 0xff :: byte]. b AND 0x80 \<noteq> 0)"
    by simp
  show ?thesis
    using h decodeNumber_incomplete[of "asciiConverter \<lparr>swapEnabled = False, swapTags = []\<rparr> []" "[0x80, 0xff]"]
    by (simp add: asciiConverter_def newXMLConverter_def)
qed

text \<open>
  C3. For every \<open>n\<close> below \<open>2^28\<close>, \<open>decodeNumber\<close> on a buffer holding exactly
  \<open>encodeNumber n\<close> returns \<open>n\<close> and leaves the buffer empty; \<open>encodeNumber 0\<close> is the byte
  \<open>0x00\<close>, \<open>encodeNumber 127\<close> the byte \<open>0x7F\<close> and \<open>encodeNumber 128\<close> the bytes
  \<open>0x80, 0x01\<close>.
\<close>

theorem varint_roundtrip:
  "(n < 2 ^ 28 \<longrightarrow> decodeNumber (conv\<lparr>binaryData := encodeNumber n\<rparr>) = Inr (int n, conv\<lparr>binaryData := []\<rparr>))
   \<and> encodeNumber 0 = [0x00] \<and> encodeNumber 127 = [0x7F] \<and> encodeNumber 128 = [0x80, 0x01]"
proof -
  have rt: "decodeNumber (conv\<lparr>binaryData := encodeNumber n\<rparr>) = Inr (int n, conv\<lparr>binaryData := []\<rparr>)"
    if "n < 2 ^ 28"
  proof -
    have "n < 2 ^ 31" using that by simp
    then show ?thesis
      using decodeNumber_encodeNumber[of n "conv\<lparr>binaryData := encodeNumber n\<rparr>" "[]"] by simp
  qed
  have e0: "encodeNumber 0 = [0x00]" by (simp add: encodeNumber_def)
  have e127: "encodeNumber 127 = [0x7F]"
    by (simp add: encodeNumber_def encodeNumberLoop_last)
  have e128: "encodeNumber 128 = [0x80, 0x01]"
    by (simp add: encodeNumber_def encodeNumberLoop_more encodeNumberLoop_last)
  show ?thesis using rt e0 e127 e128 by blast
qed

theorem varint_roundtrip_witness:
  "(300 :: nat) < 2 ^ 28
   \<and> encodeNumber 300 = [0xAC, 0x02]
   \<and> decodeNumber (asciiConverter \<lparr>swapEnabled = False, swapTags = []\<rparr> [0xAC, 0x02])
       = Inr (300, asciiConverter \<lparr>swapEnabled = False, swapTags = []\<rparr> [])"
proof -
  have e: "encodeNumber 300 = [0xAC, 0x02]"
    by (simp add: encodeNumber_def encodeNumberLoop_more encodeNumberLoop_last)
  show ?thesis
    using varint_roundtrip[of 300 "asciiConverter \<lparr>swapEnabled = False, swapTags = []\<rparr> []"] e
    by (simp add: asciiConverter_def newXMLConverter_def)
qed

section \<open>Strings and elements on the wire\<close>

lemma addToAcc_append: "addToAcc array conv = conv\<lparr>accumulator := accumulator conv @ array\<rparr>"
  by (simp add: addToAcc_def)

lemma encodeNumberAddtoAcc_append:
  "encodeNumberAddtoAcc n conv = conv\<lparr>accumulator := accumulator conv @ encodeNumber n\<rparr>"
  by (simp add: encodeNumberAddtoAcc_def encodeNumber_def addToAcc_append)

lemma encodeStringAddToAcc_append:
  "encodeStringAddToAcc s isFixed conv = conv\<lparr>accumulator := accumulator conv @ stringField conv s\<rparr>"
  by (simp add: encodeStringAddToAcc_def stringField_def payloadBytes_def Let_def
      encodeNumberAddtoAcc_append addToAcc_append)

lemma payloadBytes_acc [simp]: "payloadBytes (conv\<lparr>accumulator := a\<rparr>) = payloadBytes conv"
  by (rule ext) (simp add: payloadBytes_def)

lemma stringField_acc [simp]: "stringField (conv\<lparr>accumulator := a\<rparr>) = stringField conv"
  by (rule ext) (simp add: stringField_def)

lemma attrFields_acc [simp]: "attrFields (conv\<lparr>accumulator := a\<rparr>) ats = attrFields conv ats"
  by (induction ats) auto

lemma elementBytes_acc:
  "elementBytes (conv\<lparr>accumulator := a\<rparr>) e = elementBytes conv e"
  "childrenBytes (conv\<lparr>accumulator := a\<rparr>) chs = childrenBytes conv chs"
  by (induction conv e and conv chs rule: elementBytes_childrenBytes.induct) auto

lemma encodeAttrs_append:
  "encodeAttrs ats conv = conv\<lparr>accumulator := accumulator conv @ attrFields conv ats\<rparr>"
  by (induction ats arbitrary: conv) (auto simp add: encodeStringAddToAcc_append)

lemma encodeElement_append:
  "encodeElement e conv = conv\<lparr>accumulator := accumulator conv @ elementBytes conv e\<rparr>"
  "encodeChildren chs conv = conv\<lparr>accumulator := accumulator conv @ childrenBytes conv chs\<rparr>"
proof (induction e conv and chs conv rule: encodeElement_encodeChildren.induct)
  case (1 nm ats chs conv)
  show ?case
  proof (cases "chs = []")
    case True
    then show ?thesis
      by (simp add: Let_def encodeStringAddToAcc_append encodeNumberAddtoAcc_append encodeAttrs_append)
  next
    case False
    then have nth0: "chs ! 0 = hd chs" by (simp add: hd_conv_nth)
    have len: "length chs \<noteq> 0" using False by simp
    note IH = "1.IH"[OF refl refl refl refl refl len refl refl refl]
    have ne: "IS_CONTENT \<noteq> IS_ELEMENT" by (simp add: IS_ELEMENT_def IS_CONTENT_def)
    show ?thesis
      apply (simp only: encodeElement.simps Let_def len if_False)
      apply (subst IH)
      apply (simp add: nth0 False ne encodeStringAddToAcc_append encodeNumberAddtoAcc_append
          encodeAttrs_append elementBytes_acc)
      done
  qed
next
  case (2 conv)
  then show ?case by simp
next
  case (3 e rest conv)
  then show ?case by (simp add: elementBytes_acc)
next
  case (4 c rest conv)
  then show ?case by (simp add: encodeStringAddToAcc_append elementBytes_acc)
qed

lemma payloadBytes_bin [simp]: "payloadBytes (conv\<lparr>binaryData := a\<rparr>) = payloadBytes conv"
  by (rule ext) (simp add: payloadBytes_def)

lemma stringField_bin [simp]: "stringField (conv\<lparr>binaryData := a\<rparr>) = stringField conv"
  by (rule ext) (simp add: stringField_def)

lemma attrFields_bin [simp]: "attrFields (conv\<lparr>binaryData := a\<rparr>) ats = attrFields conv ats"
  by (induction ats) auto

lemma elementBytes_bin:
  "elementBytes (conv\<lparr>binaryData := a\<rparr>) e = elementBytes conv e"
  "childrenBytes (conv\<lparr>binaryData := a\<rparr>) chs = childrenBytes conv chs"
  by (induction conv e and conv chs rule: elementBytes_childrenBytes.induct) auto

lemma nibbleSwap_involution: "nibbleSwap (nibbleSwap bs) = bs"
  by (simp add: nibbleSwap_def nibbleSwapTable_involution o_def)

lemma length_nibbleSwap: "length (nibbleSwap bs) = length bs"
  by (simp add: nibbleSwap_def)

lemma length_payloadBytes: "length (payloadBytes conv s) = length (encoder conv s)"
  by (simp add: payloadBytes_def length_nibbleSwap)

lemma decodeNumber_wire:
  "n < 2 ^ 31 \<Longrightarrow>
   decodeNumber (conv\<lparr>binaryData := encodeNumber n @ rest\<rparr>) = Inr (int n, conv\<lparr>binaryData := rest\<rparr>)"
  using decodeNumber_encodeNumber[of n "conv\<lparr>binaryData := encodeNumber n @ rest\<rparr>" rest] by simp

lemma decodeString_wire:
  assumes "length (encoder conv s) < 2 ^ 31"
  shows "decodeString isFixed (conv\<lparr>binaryData := stringField conv s @ rest\<rparr>)
         = Inr (decoder conv (encoder conv s), conv\<lparr>binaryData := rest\<rparr>)"
proof -
  have n: "length (payloadBytes conv s) < 2 ^ 31" using assms by (simp add: length_payloadBytes)
  have dn: "decodeNumber (conv\<lparr>binaryData := stringField conv s @ rest\<rparr>)
      = Inr (int (length (payloadBytes conv s)), conv\<lparr>binaryData := payloadBytes conv s @ rest\<rparr>)"
    using decodeNumber_wire[OF n] by (simp add: stringField_def)
  have un: "(if convSwapEnabled conv then nibbleSwap (payloadBytes conv s) else payloadBytes conv s) = encoder conv s"
    by (simp add: payloadBytes_def nibbleSwap_involution)
  have "decodeString isFixed (conv\<lparr>binaryData := stringField conv s @ rest\<rparr>)
      = Inr (decoder conv (if convSwapEnabled conv then nibbleSwap (payloadBytes conv s) else payloadBytes conv s),
             conv\<lparr>binaryData := rest\<rparr>)"
    unfolding decodeString_def dn by (simp add: Let_def slice_take sliceFrom_drop)
  then show ?thesis unfolding un .
qed

lemma okString_bin [simp]: "okString (conv\<lparr>binaryData := a\<rparr>) = okString conv"
  by (rule ext) (simp add: okString_def)

lemma decodeString_ok:
  "okString conv s \<Longrightarrow>
   decodeString isFixed (conv\<lparr>binaryData := stringField conv s @ rest\<rparr>) = Inr (s, conv\<lparr>binaryData := rest\<rparr>)"
  by (simp add: okString_def decodeString_wire)

lemma decodeAttrs_wire:
  "list_all (okAttr conv) ats \<Longrightarrow>
   decodeAttrs (length ats) (conv\<lparr>binaryData := attrFields conv ats @ rest\<rparr>)
   = Inr (ats, conv\<lparr>binaryData := rest\<rparr>)"
proof (induction ats)
  case Nil
  then show ?case by simp
next
  case (Cons a ats)
  obtain k v where a: "a = (k, v)" by (cases a)
  show ?case using Cons by (simp add: a decodeString_ok)
qed

lemma wellFormed_name: "wellFormed conv e \<Longrightarrow> name e \<noteq> []"
  by (cases e) simp

lemma wellFormed_children:
  "wellFormed conv (Element nm ats chs) \<Longrightarrow>
   chs = [] \<or> (\<exists>c. chs = [TextChild c] \<and> c \<noteq> [] \<and> okString conv c) \<or> (chs \<noteq> [] \<and> allElements conv chs)"
proof (cases chs)
  case Nil
  then show "chs = [] \<or> (\<exists>c. chs = [TextChild c] \<and> c \<noteq> [] \<and> okString conv c) \<or> (chs \<noteq> [] \<and> allElements conv chs)"
    by simp
next
  case (Cons c cs)
  assume wf: "wellFormed conv (Element nm ats chs)"
  show "chs = [] \<or> (\<exists>c. chs = [TextChild c] \<and> c \<noteq> [] \<and> okString conv c) \<or> (chs \<noteq> [] \<and> allElements conv chs)"
  proof (cases c)
    case (ElementChild e)
    then show ?thesis using wf Cons by (cases cs) auto
  next
    case (TextChild t)
    then show ?thesis using wf Cons by (cases cs) auto
  qed
qed

lemma allElements_hd: "allElements conv chs \<Longrightarrow> chs \<noteq> [] \<Longrightarrow> hasName (hd chs)"
proof (cases chs)
  case Nil
  then show "chs \<noteq> [] \<Longrightarrow> hasName (hd chs)" by simp
next
  case (Cons c cs)
  assume "allElements conv chs"
  then show "hasName (hd chs)" unfolding Cons by (cases c) (auto simp: wellFormed_name)
qed

lemma decodeElement_wire:
  "wellFormed conv e \<Longrightarrow> depth e \<le> fuel \<Longrightarrow>
   decodeElement fuel (conv\<lparr>binaryData := elementBytes conv e @ rest\<rparr>)
   = Some (Inr (e, conv\<lparr>binaryData := rest\<rparr>))"
  "allElements conv chs \<Longrightarrow> depthChildren chs \<le> fuel \<Longrightarrow>
   decodeChildren fuel (length chs) (conv\<lparr>binaryData := childrenBytes conv chs @ rest\<rparr>)
   = Some (Inr (chs, conv\<lparr>binaryData := rest\<rparr>))"
proof (induction e and chs arbitrary: rest fuel and rest fuel rule: depth_depthChildren.induct)
  case (1 nm ats chs)
  obtain f where fuel: "fuel = Suc f" and f: "depthChildren chs \<le> f"
    using "1.prems"(2) by (cases fuel) auto
  have nm: "okString conv nm" and na: "length ats < 2 ^ 31" and ats: "list_all (okAttr conv) ats"
    and nc: "length chs < 2 ^ 31"
    using "1.prems"(1) by auto
  have head: "decodeElement (Suc f) (conv\<lparr>binaryData := stringField conv nm @ encodeNumber (length ats) @ attrFields conv ats @ tail\<rparr>)
      = (case decodeNumber (conv\<lparr>binaryData := tail\<rparr>) of
           Inl e \<Rightarrow> Some (Inl e)
         | Inr (childrenType, c4) \<Rightarrow>
             if childrenType = int IS_ELEMENT then
               (case decodeNumber c4 of
                  Inl e \<Rightarrow> Some (Inl e)
                | Inr (childCount, c5) \<Rightarrow>
                    if childCount > 0 then
                      (case decodeChildren f (nat childCount) c5 of
                         None \<Rightarrow> None
                       | Some (Inl e) \<Rightarrow> Some (Inl e)
                       | Some (Inr (chs, c6)) \<Rightarrow> Some (Inr (Element nm ats chs, c6)))
                    else Some (Inr (Element nm ats [], c5)))
             else if childrenType = int IS_CONTENT then
               (case decodeString False c4 of
                  Inl e \<Rightarrow> Some (Inl e)
                | Inr (text, c5) \<Rightarrow> Some (Inr (Element nm ats [TextChild text], c5)))
             else Some (Inr (Element nm ats [], c4)))" for tail
    by (simp add: decodeString_ok[OF nm] decodeNumber_wire[OF na] decodeAttrs_wire[OF ats])
  consider (empty) "chs = []" | (single) c where "chs = [TextChild c]" "c \<noteq> []" "okString conv c"
    | (elems) "chs \<noteq> []" "allElements conv chs"
    using wellFormed_children[OF "1.prems"(1)] by blast
  then show ?case
  proof cases
    case empty
    show ?thesis
      unfolding fuel using empty
      by (simp add: head decodeNumber_wire IS_ELEMENT_def del: decodeElement.simps)
  next
    case single
    show ?thesis
      unfolding fuel using single
      by (simp add: head decodeNumber_wire decodeString_ok IS_ELEMENT_def IS_CONTENT_def del: decodeElement.simps)
  next
    case elems
    have hn: "hasName (hd chs)" using elems by (simp add: allElements_hd)
    have pos: "0 < length chs" using elems by simp
    show ?thesis
      unfolding fuel using elems hn pos "1.IH"[OF elems(2) f]
      by (simp add: head decodeNumber_wire decodeNumber_wire[OF nc] IS_ELEMENT_def del: decodeElement.simps)
  qed
next
  case 2
  then show ?case by simp
next
  case (3 e rest')
  have wf: "wellFormed conv e" and ae: "allElements conv rest'" using "3.prems"(1) by auto
  have d1: "depth e \<le> fuel" and d2: "depthChildren rest' \<le> fuel" using "3.prems"(2) by auto
  show ?case
    using "3.IH"(1)[OF wf d1] "3.IH"(2)[OF ae d2] wellFormed_name[OF wf]
    by simp
next
  case (4 c rest')
  then show ?case by simp
qed

section \<open>Properties of the string and element codec\<close>

lemma ascii_roundtrip: "asciiDecode (asciiEncode s) = s"
proof -
  have "char_of (unat (of_nat (of_char c) :: byte)) = c" for c :: char
  proof -
    have "(of_char c :: nat) < 256" by (rule nat_of_char_less_256)
    then have "unat (of_nat (of_char c) :: byte) = of_char c" by (simp add: unat_of_nat)
    then show ?thesis by simp
  qed
  then show ?thesis by (simp add: asciiDecode_def asciiEncode_def map_idI)
qed

lemma ascii_okString: "length s < 2 ^ 31 \<Longrightarrow> okString (asciiConverter options buffer) s"
  using ascii_roundtrip[of s]
  by (simp add: okString_def asciiConverter_def newXMLConverter_def) (simp add: asciiEncode_def)

text \<open>
  C8. For every string and every converter, \<open>encodeStringAddToAcc\<close> with \<open>isFixed = true\<close>
  leaves the converter (and so the accumulator) exactly as it does with \<open>isFixed = false\<close>;
  and \<open>decodeString\<close> returns the same string and the same remaining buffer, or the same
  error, whatever \<open>isFixed\<close> is.
\<close>

theorem fixed_dynamic_same:
  "encodeStringAddToAcc s True conv = encodeStringAddToAcc s False conv
   \<and> decodeString True conv = decodeString False conv"
  by (simp add: encodeStringAddToAcc_def decodeString_def)

text \<open>
  C9. For an element whose children are exactly one text node with empty content,
  \<open>encodeElement\<close> appends the name, the attributes and the CONTENT discriminator (the byte
  10), and nothing after it: no string field for the content.
\<close>

theorem empty_text_emits_no_field:
  "accumulator (encodeElement (Element nm ats [TextChild []]) conv)
   = accumulator conv @ stringField conv nm @ encodeNumber (length ats) @ attrFields conv ats @ encodeNumber IS_CONTENT
   \<and> encodeNumber IS_CONTENT = [10]"
  by (simp add: encodeElement_append IS_CONTENT_def encodeNumber_def encodeNumberLoop_last)

text \<open>
  C10. When \<open>decodeElement\<close> has read the name, the attributes and a children
  discriminator that is neither 20 nor 10, it raises no error: it returns the node with an
  empty children list, and the buffer is as the read of the discriminator left it.
\<close>

theorem unknown_discriminator_empty_children:
  "decodeString True conv = Inr (nm, c1) \<Longrightarrow> decodeNumber c1 = Inr (attrCount, c2) \<Longrightarrow>
   decodeAttrs (nat attrCount) c2 = Inr (ats, c3) \<Longrightarrow> decodeNumber c3 = Inr (childrenType, c4) \<Longrightarrow>
   childrenType \<noteq> int IS_ELEMENT \<Longrightarrow> childrenType \<noteq> int IS_CONTENT \<Longrightarrow>
   decodeElement (Suc fuel) conv = Some (Inr (Element nm ats [], c4))"
  by simp

text \<open>
  C1, as amended. For every element tree that satisfies the invariants of the data model,
  whose text content is non-empty and whose strings and counts are within the codec's range
  (\<open>wellFormed\<close>), decoding the bytes that \<open>encodeElement\<close> produced, with a converter made
  from the same options, returns a tree equal to the input and leaves the buffer empty, as
  soon as the bound on the recursion depth is at least the depth of the tree.
\<close>

theorem encode_decode_roundtrip:
  assumes "wellFormed (newXMLConverter textEncode textDecode options (Inr [])) e" "depth e \<le> fuel"
  shows "decodeElement fuel
           (newXMLConverter textEncode textDecode options
              (Inr (accumulator (encodeElement e (newXMLConverter textEncode textDecode options (Inr []))))))
         = Some (Inr (e, newXMLConverter textEncode textDecode options (Inr [])))"
proof -
  let ?c = "newXMLConverter textEncode textDecode options (Inr [])"
  have acc: "accumulator (encodeElement e ?c) = elementBytes ?c e"
    by (simp add: encodeElement_append) (simp add: newXMLConverter_def)
  have c: "newXMLConverter textEncode textDecode options (Inr bs) = ?c\<lparr>binaryData := bs\<rparr>" for bs
    by (simp add: newXMLConverter_def)
  have "decodeElement fuel (?c\<lparr>binaryData := elementBytes ?c e @ []\<rparr>) = Some (Inr (e, ?c\<lparr>binaryData := []\<rparr>))"
    using assms by (rule decodeElement_wire(1))
  then show ?thesis unfolding acc c[of "elementBytes ?c e"] by (simp add: newXMLConverter_def)
qed

lemma decodeAttrs_sized:
  "list_all (\<lambda>(key, value). length (encoder conv key) < 2 ^ 31 \<and> length (encoder conv value) < 2 ^ 31) ats \<Longrightarrow>
   decodeAttrs (length ats) (conv\<lparr>binaryData := attrFields conv ats @ rest\<rparr>)
   = Inr (map (\<lambda>(key, value). (decoder conv (encoder conv key), decoder conv (encoder conv value))) ats,
          conv\<lparr>binaryData := rest\<rparr>)"
proof (induction ats)
  case Nil
  then show ?case by simp
next
  case (Cons a ats)
  obtain k v where a: "a = (k, v)" by (cases a)
  have lk: "length (encoder conv k) < 2 ^ 31" and lv: "length (encoder conv v) < 2 ^ 31"
    using Cons.prems by (auto simp add: a)
  show ?case using Cons by (simp add: a decodeString_wire[OF lk] decodeString_wire[OF lv])
qed

text \<open>
  C6. For an element with no children \<open>encodeElement\<close> appends, after the name and the
  attributes, the discriminator 20 and the count 0; and \<open>decodeElement\<close> on that encoding
  returns an element with an empty children list and leaves the buffer empty. Nothing is
  asked of the platform's text decoder: the name and the attributes come back as the decoder
  renders their encodings. The encoded strings and the attribute count are below \<open>2^31\<close>, the
  range of the number \<open>decodeNumber\<close> returns.
\<close>

theorem zero_children_element:
  "accumulator (encodeElement (Element nm ats []) conv)
     = accumulator conv @ stringField conv nm @ encodeNumber (length ats) @ attrFields conv ats @ [20, 0]
   \<and> (length (encoder conv nm) < 2 ^ 31 \<and> length ats < 2 ^ 31
       \<and> list_all (\<lambda>(key, value). length (encoder conv key) < 2 ^ 31 \<and> length (encoder conv value) < 2 ^ 31) ats
       \<longrightarrow>
        decodeElement (Suc fuel)
          (conv\<lparr>binaryData := accumulator (encodeElement (Element nm ats []) (conv\<lparr>accumulator := []\<rparr>))\<rparr>)
        = Some (Inr (Element (decoder conv (encoder conv nm))
                       (map (\<lambda>(key, value). (decoder conv (encoder conv key), decoder conv (encoder conv value))) ats)
                       [],
                     conv\<lparr>binaryData := []\<rparr>)))"
proof -
  have e20: "encodeNumber IS_ELEMENT = [20]"
    by (simp add: IS_ELEMENT_def encodeNumber_def encodeNumberLoop_last)
  have e0: "encodeNumber 0 = [0]" by (simp add: encodeNumber_def)
  have enc: "accumulator (encodeElement (Element nm ats []) c)
     = accumulator c @ stringField c nm @ encodeNumber (length ats) @ attrFields c ats @ [20, 0]" for c
    by (simp add: encodeElement_append e20 e0)
  have dec: "decodeElement (Suc fuel)
          (conv\<lparr>binaryData := accumulator (encodeElement (Element nm ats []) (conv\<lparr>accumulator := []\<rparr>))\<rparr>)
        = Some (Inr (Element (decoder conv (encoder conv nm))
                       (map (\<lambda>(key, value). (decoder conv (encoder conv key), decoder conv (encoder conv value))) ats)
                       [],
                     conv\<lparr>binaryData := []\<rparr>))"
    if nm: "length (encoder conv nm) < 2 ^ 31" and na: "length ats < 2 ^ 31"
      and ats: "list_all (\<lambda>(key, value). length (encoder conv key) < 2 ^ 31 \<and> length (encoder conv value) < 2 ^ 31) ats"
  proof -
    have z: "decodeNumber (c\<lparr>binaryData := 0 # r\<rparr>) = Inr (0, c\<lparr>binaryData := r\<rparr>)" for c r
      using decodeNumber_wire[where n=0 and conv=c and rest=r] by (simp add: e0)
    have t: "decodeNumber (c\<lparr>binaryData := 20 # r\<rparr>) = Inr (int IS_ELEMENT, c\<lparr>binaryData := r\<rparr>)" for c r
      using decodeNumber_wire[where n=IS_ELEMENT and conv=c and rest=r] by (simp add: e20) (simp add: IS_ELEMENT_def)
    show ?thesis
      unfolding enc
      by (simp add: decodeString_wire[OF nm] decodeNumber_wire[OF na] decodeAttrs_sized[OF ats] z t)
  qed
  show ?thesis using enc dec by blast
qed

section \<open>Concrete runs\<close>

lemmas eval_defs = asciiConverter_def newXMLConverter_def asciiEncode_def asciiDecode_def
  encodeElement_append payloadBytes_def stringField_def encodeNumber_def encodeNumberLoop.simps
  decodeString_def decodeNumber_def decodeNumberLoop.simps slice_def sliceFrom_def relativeIndex_def
  IS_ELEMENT_def IS_CONTENT_def Let_def nibbleSwap_def nibbleSwapTable_nth char_of_def bit_Suc_0_iff

text \<open>
  A tree with a single text child whose content is empty satisfies the invariants of the data
  model as the specification states them, and does not survive the round trip: its encoding
  ends with the discriminator, and decoding it throws.
\<close>

theorem roundtrip_empty_text_counterexample:
  "accumulator (encodeElement (Element ''a'' [] [TextChild ''''])
      (asciiConverter \<lparr>swapEnabled = False, swapTags = []\<rparr> [])) = [1, 97, 0, 10]
   \<and> decodeElement 1 (asciiConverter \<lparr>swapEnabled = False, swapTags = []\<rparr> [1, 97, 0, 10])
       = Some (Inl IncompleteNumber)"
  by (simp add: eval_defs)

theorem encode_decode_roundtrip_witness:
  "wellFormed (newXMLConverter asciiEncode asciiDecode \<lparr>swapEnabled = True, swapTags = []\<rparr> (Inr []))
     (Element ''c'' [(''hash'', ''sha-1''), (''node'', ''x'')] [ElementChild (Element ''b'' [] [TextChild ''hi''])])
   \<and> depth (Element ''c'' [(''hash'', ''sha-1''), (''node'', ''x'')] [ElementChild (Element ''b'' [] [TextChild ''hi''])]) \<le> 2
   \<and> decodeElement 2
        (newXMLConverter asciiEncode asciiDecode \<lparr>swapEnabled = True, swapTags = []\<rparr>
          (Inr (accumulator (encodeElement
             (Element ''c'' [(''hash'', ''sha-1''), (''node'', ''x'')] [ElementChild (Element ''b'' [] [TextChild ''hi''])])
             (newXMLConverter asciiEncode asciiDecode \<lparr>swapEnabled = True, swapTags = []\<rparr> (Inr []))))))
       = Some (Inr (Element ''c'' [(''hash'', ''sha-1''), (''node'', ''x'')] [ElementChild (Element ''b'' [] [TextChild ''hi''])],
                    newXMLConverter asciiEncode asciiDecode \<lparr>swapEnabled = True, swapTags = []\<rparr> (Inr [])))"
proof -
  let ?c = "newXMLConverter asciiEncode asciiDecode \<lparr>swapEnabled = True, swapTags = []\<rparr> (Inr [])"
  let ?e = "Element ''c'' [(''hash'', ''sha-1''), (''node'', ''x'')] [ElementChild (Element ''b'' [] [TextChild ''hi''])]"
  have ok: "okString ?c s" if "length s < 2 ^ 31" for s
    using ascii_okString[OF that, of "\<lparr>swapEnabled = True, swapTags = []\<rparr>" "[]"]
    by (simp add: asciiConverter_def)
  have wf: "wellFormed ?c ?e" by (simp add: ok)
  have d: "depth ?e \<le> 2" by simp
  show ?thesis using encode_decode_roundtrip[OF wf d] wf d by blast
qed

theorem zero_children_element_witness:
  "length (encoder (asciiConverter \<lparr>swapEnabled = False, swapTags = []\<rparr> []) ''sm'') < 2 ^ 31
   \<and> length [(''k'', ''v'')] < 2 ^ 31
   \<and> length (encoder (asciiConverter \<lparr>swapEnabled = False, swapTags = []\<rparr> []) ''k'') < 2 ^ 31
   \<and> length (encoder (asciiConverter \<lparr>swapEnabled = False, swapTags = []\<rparr> []) ''v'') < 2 ^ 31
   \<and> accumulator (encodeElement (Element ''sm'' [(''k'', ''v'')] []) (asciiConverter \<lparr>swapEnabled = False, swapTags = []\<rparr> []))
       = [2, 115, 109, 1, 1, 107, 1, 118, 20, 0]
   \<and> decodeElement (Suc 0) (asciiConverter \<lparr>swapEnabled = False, swapTags = []\<rparr> [2, 115, 109, 1, 1, 107, 1, 118, 20, 0])
       = Some (Inr (Element ''sm'' [(''k'', ''v'')] [], asciiConverter \<lparr>swapEnabled = False, swapTags = []\<rparr> []))"
proof -
  let ?c = "asciiConverter \<lparr>swapEnabled = False, swapTags = []\<rparr> []"
  have l1: "length (encoder ?c ''sm'') < 2 ^ 31" and l2: "length (encoder ?c ''k'') < 2 ^ 31"
    and l3: "length (encoder ?c ''v'') < 2 ^ 31" and l4: "length [(''k'', ''v'')] < 2 ^ 31"
    by (simp_all add: asciiConverter_def newXMLConverter_def asciiEncode_def)
  have h: "length (encoder ?c ''sm'') < 2 ^ 31 \<and> length [(''k'', ''v'')] < 2 ^ 31
       \<and> list_all (\<lambda>(key, value). length (encoder ?c key) < 2 ^ 31 \<and> length (encoder ?c value) < 2 ^ 31) [(''k'', ''v'')]"
    using l1 l2 l3 by simp
  have enc: "accumulator (encodeElement (Element ''sm'' [(''k'', ''v'')] []) ?c) = [2, 115, 109, 1, 1, 107, 1, 118, 20, 0]"
    by (simp add: eval_defs)
  have upd: "?c\<lparr>accumulator := []\<rparr> = ?c" "?c\<lparr>binaryData := bs\<rparr> = asciiConverter \<lparr>swapEnabled = False, swapTags = []\<rparr> bs" for bs
    by (simp_all add: asciiConverter_def newXMLConverter_def)
  have rc: "decoder ?c (encoder ?c s) = s" for s
    using ascii_roundtrip[of s] by (simp add: asciiConverter_def newXMLConverter_def)
  have "decodeElement (Suc 0)
          (?c\<lparr>binaryData := accumulator (encodeElement (Element ''sm'' [(''k'', ''v'')] []) (?c\<lparr>accumulator := []\<rparr>))\<rparr>)
        = Some (Inr (Element (decoder ?c (encoder ?c ''sm''))
                       (map (\<lambda>(key, value). (decoder ?c (encoder ?c key), decoder ?c (encoder ?c value))) [(''k'', ''v'')])
                       [],
                     ?c\<lparr>binaryData := []\<rparr>))"
    using zero_children_element[of "''sm''" "[(''k'', ''v'')]" ?c 0] h by blast
  then have dec: "decodeElement (Suc 0) (asciiConverter \<lparr>swapEnabled = False, swapTags = []\<rparr> [2, 115, 109, 1, 1, 107, 1, 118, 20, 0])
        = Some (Inr (Element ''sm'' [(''k'', ''v'')] [], ?c))"
    unfolding rc by (simp only: upd enc list.map prod.case)
  show ?thesis using l1 l2 l3 l4 enc dec by blast
qed

theorem unknown_discriminator_empty_children_witness:
  "decodeString True (asciiConverter \<lparr>swapEnabled = False, swapTags = []\<rparr> [1, 97, 0, 7, 1, 2])
     = Inr (''a'', asciiConverter \<lparr>swapEnabled = False, swapTags = []\<rparr> [0, 7, 1, 2])
   \<and> decodeNumber (asciiConverter \<lparr>swapEnabled = False, swapTags = []\<rparr> [0, 7, 1, 2])
     = Inr (0, asciiConverter \<lparr>swapEnabled = False, swapTags = []\<rparr> [7, 1, 2])
   \<and> decodeAttrs (nat 0) (asciiConverter \<lparr>swapEnabled = False, swapTags = []\<rparr> [7, 1, 2])
     = Inr ([], asciiConverter \<lparr>swapEnabled = False, swapTags = []\<rparr> [7, 1, 2])
   \<and> decodeNumber (asciiConverter \<lparr>swapEnabled = False, swapTags = []\<rparr> [7, 1, 2])
     = Inr (7, asciiConverter \<lparr>swapEnabled = False, swapTags = []\<rparr> [1, 2])
   \<and> (7 :: int) \<noteq> int IS_ELEMENT \<and> (7 :: int) \<noteq> int IS_CONTENT
   \<and> decodeElement (Suc 0) (asciiConverter \<lparr>swapEnabled = False, swapTags = []\<rparr> [1, 97, 0, 7, 1, 2])
     = Some (Inr (Element ''a'' [] [], asciiConverter \<lparr>swapEnabled = False, swapTags = []\<rparr> [1, 2]))"
proof -
  let ?o = "\<lparr>swapEnabled = False, swapTags = []\<rparr>"
  have h1: "decodeString True (asciiConverter ?o [1, 97, 0, 7, 1, 2]) = Inr (''a'', asciiConverter ?o [0, 7, 1, 2])"
    by (simp add: eval_defs)
  have h2: "decodeNumber (asciiConverter ?o [0, 7, 1, 2]) = Inr (0, asciiConverter ?o [7, 1, 2])"
    by (simp add: eval_defs)
  have h3: "decodeAttrs (nat 0) (asciiConverter ?o [7, 1, 2]) = Inr ([], asciiConverter ?o [7, 1, 2])"
    by simp
  have h4: "decodeNumber (asciiConverter ?o [7, 1, 2]) = Inr (7, asciiConverter ?o [1, 2])"
    by (simp add: eval_defs)
  have h5: "(7 :: int) \<noteq> int IS_ELEMENT" and h6: "(7 :: int) \<noteq> int IS_CONTENT"
    by (simp_all add: IS_ELEMENT_def IS_CONTENT_def)
  show ?thesis
    using unknown_discriminator_empty_children[OF h1 h2 h3 h4 h5 h6, of 0] h1 h2 h3 h4 h5 h6
    by blast
qed

text \<open>
  C4. The claim is the format \<open>decodeElement\<close> reads: after the discriminator 10, one
  string field. \<open>encodeElement\<close> does not keep to it: its loop emits a string field for every
  text child, so for the children \<open>x\<close>, \<open>y\<close> the bytes 1, 121 of the second follow the field of
  the first. Inside a larger tree the extra field is read as the start of the next sibling:
  the encoding of \<open>a\<close> with the children \<open>b\<close> (texts \<open>x\<close>, \<open>y\<close>) and \<open>c\<close> is rejected by the
  decoder.
\<close>

theorem later_text_siblings_emitted:
  "accumulator (encodeElement (Element ''a'' [] [TextChild ''x'', TextChild ''y''])
      (asciiConverter \<lparr>swapEnabled = False, swapTags = []\<rparr> []))
     = [1, 97, 0, 10, 1, 120, 1, 121]
   \<and> stringField (asciiConverter \<lparr>swapEnabled = False, swapTags = []\<rparr> []) ''a'' @ encodeNumber 0
       @ [10] @ stringField (asciiConverter \<lparr>swapEnabled = False, swapTags = []\<rparr> []) ''x''
     = [1, 97, 0, 10, 1, 120]
   \<and> stringField (asciiConverter \<lparr>swapEnabled = False, swapTags = []\<rparr> []) ''y'' = [1, 121]
   \<and> accumulator (encodeElement
        (Element ''a'' [] [ElementChild (Element ''b'' [] [TextChild ''x'', TextChild ''y'']),
                          ElementChild (Element ''c'' [] [])])
        (asciiConverter \<lparr>swapEnabled = False, swapTags = []\<rparr> []))
     = [1, 97, 0, 20, 2, 1, 98, 0, 10, 1, 120, 1, 121, 1, 99, 0, 20, 0]
   \<and> decodeElement (Suc (Suc 0)) (asciiConverter \<lparr>swapEnabled = False, swapTags = []\<rparr>
        [1, 97, 0, 20, 2, 1, 98, 0, 10, 1, 120, 1, 121, 1, 99, 0, 20, 0])
     = Some (Inl IncompleteNumber)"
proof -
  let ?o = "\<lparr>swapEnabled = False, swapTags = []\<rparr>"
  have two: "decodeChildren f 2 c = decodeChildren f (Suc (Suc 0)) c" for f c
    by (simp add: numeral_2_eq_2)
  have e1: "accumulator (encodeElement (Element ''a'' [] [TextChild ''x'', TextChild ''y'']) (asciiConverter ?o []))
     = [1, 97, 0, 10, 1, 120, 1, 121]"
    by (simp add: eval_defs)
  have e2: "stringField (asciiConverter ?o []) ''a'' @ encodeNumber 0 @ [10] @ stringField (asciiConverter ?o []) ''x''
     = [1, 97, 0, 10, 1, 120]"
    by (simp add: eval_defs)
  have e3: "stringField (asciiConverter ?o []) ''y'' = [1, 121]"
    by (simp add: eval_defs)
  have e4: "accumulator (encodeElement
        (Element ''a'' [] [ElementChild (Element ''b'' [] [TextChild ''x'', TextChild ''y'']),
                          ElementChild (Element ''c'' [] [])])
        (asciiConverter ?o []))
     = [1, 97, 0, 20, 2, 1, 98, 0, 10, 1, 120, 1, 121, 1, 99, 0, 20, 0]"
    by (simp add: eval_defs)
  have d: "decodeElement (Suc (Suc 0)) (asciiConverter ?o
        [1, 97, 0, 20, 2, 1, 98, 0, 10, 1, 120, 1, 121, 1, 99, 0, 20, 0])
     = Some (Inl IncompleteNumber)"
    by (simp add: eval_defs two)
  show ?thesis using e1 e2 e3 e4 d by blast
qed

lemma childrenBytes_texts:
  "childrenBytes conv (map TextChild texts) = concat (map (stringField conv) (filter (\<lambda>t. t \<noteq> []) texts))"
  by (induction texts) auto

text \<open>
  What the loop over the children appends in general when the first child is a text node
  with non-empty content: the discriminator 10, no count, and then the encoding of every
  child in order.
\<close>

lemma encodeElement_text_first:
  assumes "c \<noteq> []"
  shows "accumulator (encodeElement (Element nm ats (TextChild c # rest)) conv)
         = accumulator conv @ stringField conv nm @ encodeNumber (length ats) @ attrFields conv ats
           @ [10] @ stringField conv c @ childrenBytes conv rest
       \<and> childrenBytes conv (map TextChild texts)
         = concat (map (stringField conv) (filter (\<lambda>t. t \<noteq> []) texts))"
proof -
  have e10: "encodeNumber IS_CONTENT = [10]"
    by (simp add: IS_CONTENT_def encodeNumber_def encodeNumberLoop_last)
  show ?thesis using assms by (simp add: encodeElement_append e10 childrenBytes_texts)
qed

text \<open>
  C2. A buffer that lacks the last bytes of a valid encoding must be rejected.
  \<open>decodeNumber\<close> checks its bounds and throws; \<open>decodeString\<close> does not: it takes
  \<open>binaryData.slice(0, length)\<close>, which gives the bytes that are there. So the encoding of
  \<open>m\<close> with the text \<open>PLAIN\<close>, cut after 7 of its 10 bytes, is decoded without error to the
  text \<open>PL\<close>, and cut after 5 bytes, where the whole declared payload is missing, to the
  empty text.
\<close>

theorem truncated_buffer_accepted:
  "accumulator (encodeElement (Element ''m'' [] [TextChild ''PLAIN''])
      (asciiConverter \<lparr>swapEnabled = False, swapTags = []\<rparr> []))
     = [1, 109, 0, 10, 5, 80, 76, 65, 73, 78]
   \<and> take 7 [1, 109, 0, 10, 5, 80, 76, 65, 73, 78 :: byte] = [1, 109, 0, 10, 5, 80, 76]
   \<and> decodeElement 1 (asciiConverter \<lparr>swapEnabled = False, swapTags = []\<rparr> [1, 109, 0, 10, 5, 80, 76])
     = Some (Inr (Element ''m'' [] [TextChild ''PL''], asciiConverter \<lparr>swapEnabled = False, swapTags = []\<rparr> []))
   \<and> take 5 [1, 109, 0, 10, 5, 80, 76, 65, 73, 78 :: byte] = [1, 109, 0, 10, 5]
   \<and> decodeElement 1 (asciiConverter \<lparr>swapEnabled = False, swapTags = []\<rparr> [1, 109, 0, 10, 5])
     = Some (Inr (Element ''m'' [] [TextChild ''''], asciiConverter \<lparr>swapEnabled = False, swapTags = []\<rparr> []))"
  by (simp add: eval_defs)

section \<open>Truncated buffers\<close>

lemma decodeNumber_exhausted:
  assumes "length bs < 5" "\<forall>b\<in>set bs. b AND 0x80 \<noteq> 0"
  shows "decodeNumber (conv\<lparr>binaryData := bs\<rparr>) = Inl IncompleteNumber"
proof -
  have loop: "decodeNumberLoop bs 0 0 0 = Inl IncompleteNumber"
    using decodeNumberLoop_exhausted[OF assms(2) assms(1), of 0 0 0] by simp
  have "bs \<noteq> [] \<Longrightarrow> bs ! 0 \<noteq> 0"
  proof
    assume ne: "bs \<noteq> []" and z: "bs ! 0 = 0"
    from ne have "bs ! 0 \<in> set bs" by (simp del: nth_mem add: nth_mem[of 0 bs])
    then have "bs ! 0 AND 0x80 \<noteq> 0" using assms(2) by blast
    then show False using z by simp
  qed
  then show ?thesis using loop by (auto simp add: decodeNumber_def Let_def)
qed

lemma decodeNumber_empty: "decodeNumber (conv\<lparr>binaryData := []\<rparr>) = Inl IncompleteNumber"
  by (rule decodeNumber_exhausted) simp_all

lemma decodeString_empty: "decodeString isFixed (conv\<lparr>binaryData := []\<rparr>) = Inl IncompleteNumber"
  by (simp add: decodeString_def decodeNumber_empty)

lemma decodeElement_empty: "decodeElement (Suc fuel) (conv\<lparr>binaryData := []\<rparr>) = Some (Inl IncompleteNumber)"
  by (simp add: decodeString_empty)

lemma decodeAttrs_empty:
  "decodeAttrs n (conv\<lparr>binaryData := []\<rparr>)
   = (if n = 0 then Inr ([], conv\<lparr>binaryData := []\<rparr>) else Inl IncompleteNumber)"
  by (cases n) (simp_all add: decodeString_empty)

lemma encodeNumberLoop_shape:
  "index < 5 \<Longrightarrow>
   length (encodeNumberLoop n index) \<le> 5 - index
   \<and> (\<forall>b\<in>set (butlast (encodeNumberLoop n index)). b AND 0x80 \<noteq> 0)"
proof (induction n index rule: encodeNumberLoop.induct)
  case (1 number index)
  define n' where "n' = unat (drop_bit 7 (of_nat number :: int32))"
  show ?case
  proof (cases "n' > 0 \<and> index + 1 < 5")
    case True
    have e: "encodeNumberLoop number index
        = ucast ((of_nat number :: int32) AND 0x7f OR 0x80) # encodeNumberLoop n' (index + 1)"
      using True by (subst encodeNumberLoop.simps) (simp add: Let_def n'_def)
    have IH: "length (encodeNumberLoop n' (index + 1)) \<le> 5 - (index + 1)
        \<and> (\<forall>b\<in>set (butlast (encodeNumberLoop n' (index + 1))). b AND 0x80 \<noteq> 0)"
      using "1.IH"[OF refl n'_def refl] True by simp
    show ?thesis
      unfolding e using IH True cont_byte_go[of "of_nat number"]
      by (auto simp add: encodeNumberLoop_nonempty)
  next
    case False
    have "\<exists>b. encodeNumberLoop number index = [b]"
      using False by (subst encodeNumberLoop.simps) (auto simp add: Let_def n'_def)
    then show ?thesis using "1.prems" by auto
  qed
qed

lemma encodeNumber_shape:
  "length (encodeNumber n) \<le> 5 \<and> (\<forall>b\<in>set (butlast (encodeNumber n)). b AND 0x80 \<noteq> 0)"
  using encodeNumberLoop_shape[of 0 n] by (simp add: encodeNumber_def)

lemma decodeNumber_cut:
  assumes "encodeNumber n = p @ q" "q \<noteq> []"
  shows "decodeNumber (conv\<lparr>binaryData := p\<rparr>) = Inl IncompleteNumber"
proof (rule decodeNumber_exhausted)
  have "length p < length (encodeNumber n)" using assms by simp
  then show "length p < 5" using encodeNumber_shape[of n] by simp
  have "set p \<subseteq> set (butlast (p @ q))" using assms(2) by (simp add: butlast_append)
  then show "\<forall>b\<in>set p. b AND 0x80 \<noteq> 0"
    using encodeNumber_shape[of n] unfolding assms(1) by blast
qed

lemma split_field:
  assumes "f @ r = p @ q"
  shows "(\<exists>p'. p = f @ p' \<and> r = p' @ q) \<or> (\<exists>q'. f = p @ q' \<and> q' \<noteq> [] \<and> q = q' @ r)"
proof -
  from assms consider us where "f = p @ us" "us @ r = q" | us where "f @ us = p" "r = us @ q"
    by (auto simp add: append_eq_append_conv2)
  then show ?thesis
  proof cases
    case 1
    then show ?thesis by (cases "us = []") auto
  next
    case 2
    then show ?thesis by auto
  qed
qed

lemma decodeString_cut:
  assumes "length (encoder conv s) < 2 ^ 31" "stringField conv s = p @ q" "q \<noteq> []"
  shows "decodeString isFixed (conv\<lparr>binaryData := p\<rparr>) = Inl IncompleteNumber
         \<or> (length q \<le> length (payloadBytes conv s)
            \<and> (\<exists>v. decodeString isFixed (conv\<lparr>binaryData := p\<rparr>) = Inr (v, conv\<lparr>binaryData := []\<rparr>)))"
proof -
  let ?n = "length (payloadBytes conv s)"
  have n: "?n < 2 ^ 31" using assms(1) by (simp add: length_payloadBytes)
  from split_field[of "encodeNumber ?n" "payloadBytes conv s" p q] assms(2)
  consider p' where "p = encodeNumber ?n @ p'" "payloadBytes conv s = p' @ q"
    | q' where "encodeNumber ?n = p @ q'" "q' \<noteq> []"
    by (auto simp add: stringField_def)
  then show ?thesis
  proof cases
    case 1
    have len: "length p' < ?n" using 1(2) assms(3) by simp
    have "decodeString isFixed (conv\<lparr>binaryData := encodeNumber ?n @ p'\<rparr>)
        = Inr (decoder conv (if convSwapEnabled conv then nibbleSwap p' else p'), conv\<lparr>binaryData := []\<rparr>)"
      using len by (simp add: decodeString_def decodeNumber_wire[OF n] Let_def slice_take sliceFrom_drop)
    moreover have "length q \<le> ?n" using 1(2) by simp
    ultimately show ?thesis unfolding 1(1) by blast
  next
    case 2
    then have "decodeNumber (conv\<lparr>binaryData := p\<rparr>) = Inl IncompleteNumber"
      by (rule decodeNumber_cut)
    then show ?thesis by (simp add: decodeString_def)
  qed
qed

lemma decodeAttrs_cut:
  assumes "list_all (okAttr conv) ats" "attrFields conv ats = p @ q" "q \<noteq> []"
  shows "decodeAttrs (length ats) (conv\<lparr>binaryData := p\<rparr>) = Inl IncompleteNumber
         \<or> (\<exists>v. decodeAttrs (length ats) (conv\<lparr>binaryData := p\<rparr>) = Inr (v, conv\<lparr>binaryData := []\<rparr>))"
  using assms
proof (induction ats arbitrary: p)
  case Nil
  then show ?case by simp
next
  case (Cons a ats)
  obtain k v where a: "a = (k, v)" by (cases a)
  have okk: "okString conv k" and okv: "okString conv v" and oka: "list_all (okAttr conv) ats"
    using Cons.prems(1) by (auto simp add: a)
  have lk: "length (encoder conv k) < 2 ^ 31" and lv: "length (encoder conv v) < 2 ^ 31"
    using okk okv by (auto simp add: okString_def)
  have bytes: "stringField conv k @ (stringField conv v @ attrFields conv ats) = p @ q"
    using Cons.prems(2) by (simp add: a)
  from split_field[OF bytes]
  consider (afterKey) p1 where "p = stringField conv k @ p1" "stringField conv v @ attrFields conv ats = p1 @ q"
    | (inKey) q' where "stringField conv k = p @ q'" "q' \<noteq> []"
    by blast
  then show ?case
  proof cases
    case inKey
    from decodeString_cut[OF lk inKey, of True]
    show ?thesis by (auto simp add: a decodeString_empty)
  next
    case afterKey
    from split_field[OF afterKey(2)]
    consider (afterValue) p2 where "p1 = stringField conv v @ p2" "attrFields conv ats = p2 @ q"
      | (inValue) q' where "stringField conv v = p1 @ q'" "q' \<noteq> []"
      by blast
    then show ?thesis
    proof cases
      case inValue
      from decodeString_cut[OF lv inValue, of False]
      show ?thesis
        unfolding afterKey(1)
        by (auto simp add: a decodeString_ok[OF okk] decodeAttrs_empty)
    next
      case afterValue
      from Cons.IH[OF oka afterValue(2) Cons.prems(3)]
      show ?thesis
        unfolding afterKey(1) afterValue(1)
        by (auto simp add: a decodeString_ok[OF okk] decodeString_ok[OF okv])
    qed
  qed
qed

lemma decodeElement_head:
  assumes "okString conv nm" "length ats < 2 ^ 31" "list_all (okAttr conv) ats"
  shows "decodeElement (Suc f)
           (conv\<lparr>binaryData := stringField conv nm @ encodeNumber (length ats) @ attrFields conv ats @ tail\<rparr>)
      = (case decodeNumber (conv\<lparr>binaryData := tail\<rparr>) of
           Inl e \<Rightarrow> Some (Inl e)
         | Inr (childrenType, c4) \<Rightarrow>
             if childrenType = int IS_ELEMENT then
               (case decodeNumber c4 of
                  Inl e \<Rightarrow> Some (Inl e)
                | Inr (childCount, c5) \<Rightarrow>
                    if childCount > 0 then
                      (case decodeChildren f (nat childCount) c5 of
                         None \<Rightarrow> None
                       | Some (Inl e) \<Rightarrow> Some (Inl e)
                       | Some (Inr (chs, c6)) \<Rightarrow> Some (Inr (Element nm ats chs, c6)))
                    else Some (Inr (Element nm ats [], c5)))
             else if childrenType = int IS_CONTENT then
               (case decodeString False c4 of
                  Inl e \<Rightarrow> Some (Inl e)
                | Inr (text, c5) \<Rightarrow> Some (Inr (Element nm ats [TextChild text], c5)))
             else Some (Inr (Element nm ats [], c4)))"
  by (simp add: decodeString_ok[OF assms(1)] decodeNumber_wire[OF assms(2)] decodeAttrs_wire[OF assms(3)])

lemma decodeElement_cut_head:
  assumes "okString conv nm" "length ats < 2 ^ 31" "list_all (okAttr conv) ats"
    and "stringField conv nm @ encodeNumber (length ats) @ attrFields conv ats @ tail = p @ q" "q \<noteq> []"
  shows "decodeElement (Suc f) (conv\<lparr>binaryData := p\<rparr>) = Some (Inl IncompleteNumber)
         \<or> (\<exists>p3. p = stringField conv nm @ encodeNumber (length ats) @ attrFields conv ats @ p3 \<and> tail = p3 @ q)"
proof -
  have lnm: "length (encoder conv nm) < 2 ^ 31" using assms(1) by (simp add: okString_def)
  from split_field[OF assms(4)]
  consider (afterName) p1 where "p = stringField conv nm @ p1" "encodeNumber (length ats) @ attrFields conv ats @ tail = p1 @ q"
    | (inName) q' where "stringField conv nm = p @ q'" "q' \<noteq> []"
    by blast
  then show ?thesis
  proof cases
    case inName
    from decodeString_cut[OF lnm inName, of True]
    show ?thesis by (auto simp add: decodeNumber_empty)
  next
    case afterName
    from split_field[OF afterName(2)]
    consider (afterCount) p2 where "p1 = encodeNumber (length ats) @ p2" "attrFields conv ats @ tail = p2 @ q"
      | (inCount) q' where "encodeNumber (length ats) = p1 @ q'" "q' \<noteq> []"
      by blast
    then show ?thesis
    proof cases
      case inCount
      from decodeNumber_cut[OF inCount, of conv]
      show ?thesis unfolding afterName(1) by (simp add: decodeString_ok[OF assms(1)])
    next
      case afterCount
      from split_field[OF afterCount(2)]
      consider (afterAttrs) p3 where "p2 = attrFields conv ats @ p3" "tail = p3 @ q"
        | (inAttrs) q' where "attrFields conv ats = p2 @ q'" "q' \<noteq> []"
        by blast
      then show ?thesis
      proof cases
        case inAttrs
        from decodeAttrs_cut[OF assms(3) inAttrs]
        show ?thesis
          unfolding afterName(1) afterCount(1)
          by (auto simp add: decodeString_ok[OF assms(1)] decodeNumber_wire[OF assms(2)] decodeNumber_empty)
      next
        case afterAttrs
        then show ?thesis unfolding afterName(1) afterCount(1) by simp
      qed
    qed
  qed
qed

lemma encodeNumber_tags: "encodeNumber IS_ELEMENT = [20]" "encodeNumber IS_CONTENT = [10]" "encodeNumber 0 = [0]"
  by (simp_all add: IS_ELEMENT_def IS_CONTENT_def encodeNumber_def encodeNumberLoop_last)

lemma decodeNumber_tag:
  "decodeNumber (conv\<lparr>binaryData := encodeNumber IS_ELEMENT @ r\<rparr>) = Inr (int IS_ELEMENT, conv\<lparr>binaryData := r\<rparr>)"
  "decodeNumber (conv\<lparr>binaryData := encodeNumber IS_CONTENT @ r\<rparr>) = Inr (int IS_CONTENT, conv\<lparr>binaryData := r\<rparr>)"
  by (rule decodeNumber_wire, simp add: IS_ELEMENT_def IS_CONTENT_def)+

lemma tailPayloadChildren_Cons: "rest \<noteq> [] \<Longrightarrow> tailPayloadChildren conv (c # rest) = tailPayloadChildren conv rest"
  by (cases rest) auto

lemma childrenBytes_nonempty: "childrenBytes conv chs \<noteq> [] \<Longrightarrow> chs \<noteq> []"
  by auto

lemma depth_pos: "0 < depth e"
  by (cases e) simp

lemma decodeElement_cut:
  "wellFormed conv e \<Longrightarrow> depth e \<le> fuel \<Longrightarrow> elementBytes conv e = p @ q \<Longrightarrow> q \<noteq> [] \<Longrightarrow>
   decodeElement fuel (conv\<lparr>binaryData := p\<rparr>) = Some (Inl IncompleteNumber)
   \<or> (length q \<le> tailPayload conv e
      \<and> (\<exists>e'. decodeElement fuel (conv\<lparr>binaryData := p\<rparr>) = Some (Inr (e', conv\<lparr>binaryData := []\<rparr>))))"
  "allElements conv chs \<Longrightarrow> depthChildren chs \<le> fuel \<Longrightarrow> childrenBytes conv chs = p @ q \<Longrightarrow> q \<noteq> [] \<Longrightarrow>
   decodeChildren fuel (length chs) (conv\<lparr>binaryData := p\<rparr>) = Some (Inl IncompleteNumber)
   \<or> (length q \<le> tailPayloadChildren conv chs
      \<and> (\<exists>chs'. decodeChildren fuel (length chs) (conv\<lparr>binaryData := p\<rparr>) = Some (Inr (chs', conv\<lparr>binaryData := []\<rparr>))))"
proof (induction e and chs arbitrary: p q fuel and p q fuel rule: depth_depthChildren.induct)
  case (1 nm ats chs)
  obtain f where fuel: "fuel = Suc f" and f: "depthChildren chs \<le> f"
    using "1.prems"(2) by (cases fuel) auto
  have nm: "okString conv nm" and na: "length ats < 2 ^ 31" and ats: "list_all (okAttr conv) ats"
    and nc: "length chs < 2 ^ 31"
    using "1.prems"(1) by auto
  consider (empty) "chs = []" | (single) c where "chs = [TextChild c]" "c \<noteq> []" "okString conv c"
    | (elems) "chs \<noteq> []" "allElements conv chs"
    using wellFormed_children[OF "1.prems"(1)] by blast
  then show ?case
  proof cases
    case empty
    let ?tail = "encodeNumber IS_ELEMENT @ encodeNumber 0"
    have bytes: "stringField conv nm @ encodeNumber (length ats) @ attrFields conv ats @ ?tail = p @ q"
      using "1.prems"(3) empty by simp
    from decodeElement_cut_head[OF nm na ats bytes "1.prems"(4), of f]
    consider "decodeElement (Suc f) (conv\<lparr>binaryData := p\<rparr>) = Some (Inl IncompleteNumber)"
      | p3 where "p = stringField conv nm @ encodeNumber (length ats) @ attrFields conv ats @ p3" "?tail = p3 @ q"
      by blast
    then have "decodeElement (Suc f) (conv\<lparr>binaryData := p\<rparr>) = Some (Inl IncompleteNumber)"
    proof cases
      case 1
      then show ?thesis .
    next
      case 2
      from split_field[OF 2(2)[symmetric, THEN sym]]
      consider p4 where "p3 = encodeNumber IS_ELEMENT @ p4" "encodeNumber 0 = p4 @ q"
        | q' where "encodeNumber IS_ELEMENT = p3 @ q'" "q' \<noteq> []"
        by blast
      then show ?thesis
      proof cases
        case 1
        from decodeNumber_cut[OF 1(2) "1.prems"(4), of conv]
        show ?thesis
          unfolding 2(1) 1(1) decodeElement_head[OF nm na ats] by (simp add: decodeNumber_tag)
      next
        case 2
        from decodeNumber_cut[OF 2, of conv]
        show ?thesis
          unfolding \<open>p = stringField conv nm @ encodeNumber (length ats) @ attrFields conv ats @ p3\<close>
            decodeElement_head[OF nm na ats] by simp
      qed
    qed
    then show ?thesis unfolding fuel by blast
  next
    case single
    let ?tail = "encodeNumber IS_CONTENT @ stringField conv c"
    have lc: "length (encoder conv c) < 2 ^ 31" using single(3) by (simp add: okString_def)
    have bytes: "stringField conv nm @ encodeNumber (length ats) @ attrFields conv ats @ ?tail = p @ q"
      using "1.prems"(3) single by simp
    have tp: "tailPayload conv (Element nm ats chs) = length (payloadBytes conv c)"
      using single by simp
    have ne: "IS_CONTENT \<noteq> IS_ELEMENT" by (simp add: IS_ELEMENT_def IS_CONTENT_def)
    from decodeElement_cut_head[OF nm na ats bytes "1.prems"(4), of f]
    consider "decodeElement (Suc f) (conv\<lparr>binaryData := p\<rparr>) = Some (Inl IncompleteNumber)"
      | p3 where "p = stringField conv nm @ encodeNumber (length ats) @ attrFields conv ats @ p3" "?tail = p3 @ q"
      by blast
    then show ?thesis
    proof cases
      case 1
      then show ?thesis unfolding fuel by blast
    next
      case 2
      from split_field[OF 2(2)[symmetric, THEN sym]]
      consider p4 where "p3 = encodeNumber IS_CONTENT @ p4" "stringField conv c = p4 @ q"
        | q' where "encodeNumber IS_CONTENT = p3 @ q'" "q' \<noteq> []"
        by blast
      then show ?thesis
      proof cases
        case 1
        from decodeString_cut[OF lc 1(2) "1.prems"(4), of False]
        show ?thesis
          unfolding fuel 2(1) 1(1) decodeElement_head[OF nm na ats] tp
          by (auto simp add: decodeNumber_tag ne)
      next
        case 2
        from decodeNumber_cut[OF 2, of conv]
        show ?thesis
          unfolding fuel \<open>p = stringField conv nm @ encodeNumber (length ats) @ attrFields conv ats @ p3\<close>
            decodeElement_head[OF nm na ats] by simp
      qed
    qed
  next
    case elems
    let ?tail = "encodeNumber IS_ELEMENT @ encodeNumber (length chs) @ childrenBytes conv chs"
    have hn: "hasName (hd chs)" using elems by (simp add: allElements_hd)
    have pos: "0 < length chs" using elems by simp
    have bytes: "stringField conv nm @ encodeNumber (length ats) @ attrFields conv ats @ ?tail = p @ q"
      using "1.prems"(3) elems hn by simp
    have tp: "tailPayload conv (Element nm ats chs) = tailPayloadChildren conv chs" by simp
    from decodeElement_cut_head[OF nm na ats bytes "1.prems"(4), of f]
    consider "decodeElement (Suc f) (conv\<lparr>binaryData := p\<rparr>) = Some (Inl IncompleteNumber)"
      | p3 where "p = stringField conv nm @ encodeNumber (length ats) @ attrFields conv ats @ p3" "?tail = p3 @ q"
      by blast
    then show ?thesis
    proof cases
      case 1
      then show ?thesis unfolding fuel by blast
    next
      case 2
      note p_eq = 2(1)
      from split_field[OF 2(2)[symmetric, THEN sym]]
      consider p4 where "p3 = encodeNumber IS_ELEMENT @ p4" "encodeNumber (length chs) @ childrenBytes conv chs = p4 @ q"
        | q' where "encodeNumber IS_ELEMENT = p3 @ q'" "q' \<noteq> []"
        by blast
      then show ?thesis
      proof cases
        case 2
        from decodeNumber_cut[OF 2, of conv]
        show ?thesis
          unfolding fuel p_eq decodeElement_head[OF nm na ats] by simp
      next
        case 1
        note p3_eq = 1(1)
        from split_field[OF 1(2)]
        consider p5 where "p4 = encodeNumber (length chs) @ p5" "childrenBytes conv chs = p5 @ q"
          | q' where "encodeNumber (length chs) = p4 @ q'" "q' \<noteq> []"
          by blast
        then show ?thesis
        proof cases
          case 2
          from decodeNumber_cut[OF 2, of conv]
          show ?thesis
            unfolding fuel p_eq p3_eq decodeElement_head[OF nm na ats] by (simp add: decodeNumber_tag)
        next
          case 1
          from "1.IH"[OF elems(2) f 1(2) "1.prems"(4)]
          show ?thesis
            unfolding fuel p_eq p3_eq 1(1) decodeElement_head[OF nm na ats] tp
            using pos by (auto simp add: decodeNumber_tag decodeNumber_wire[OF nc])
        qed
      qed
    qed
  qed
next
  case 2
  then show ?case by simp
next
  case (3 e rest')
  have wf: "wellFormed conv e" and ae: "allElements conv rest'" using "3.prems"(1) by auto
  have d1: "depth e \<le> fuel" and d2: "depthChildren rest' \<le> fuel" using "3.prems"(2) by auto
  obtain f where fuel: "fuel = Suc f" using d1 depth_pos[of e] by (cases fuel) auto
  have bytes: "elementBytes conv e @ childrenBytes conv rest' = p @ q"
    using "3.prems"(3) wellFormed_name[OF wf] by simp
  from split_field[OF bytes]
  consider (after) p1 where "p = elementBytes conv e @ p1" "childrenBytes conv rest' = p1 @ q"
    | (inside) q' where "elementBytes conv e = p @ q'" "q' \<noteq> []" "q = q' @ childrenBytes conv rest'"
    by blast
  then show ?case
  proof cases
    case after
    have ne: "rest' \<noteq> []" using after(2) "3.prems"(4) by auto
    from "3.IH"(2)[OF ae d2 after(2) "3.prems"(4)]
    show ?thesis
      unfolding after(1) tailPayloadChildren_Cons[OF ne]
      by (auto simp add: decodeElement_wire(1)[OF wf d1])
  next
    case inside
    from "3.IH"(1)[OF wf d1 inside(1,2)]
    consider "decodeElement fuel (conv\<lparr>binaryData := p\<rparr>) = Some (Inl IncompleteNumber)"
      | e' where "length q' \<le> tailPayload conv e"
          "decodeElement fuel (conv\<lparr>binaryData := p\<rparr>) = Some (Inr (e', conv\<lparr>binaryData := []\<rparr>))"
      by blast
    then show ?thesis
    proof cases
      case 1
      then show ?thesis by simp
    next
      case 2
      show ?thesis
      proof (cases rest')
        case Nil
        then show ?thesis using 2 inside(3) by simp
      next
        case (Cons c cs)
        have "decodeChildren fuel (length rest') (conv\<lparr>binaryData := []\<rparr>) = Some (Inl IncompleteNumber)"
          unfolding Cons fuel by (simp add: decodeElement_empty del: decodeElement.simps)
        then show ?thesis using 2(2) by simp
      qed
    qed
  qed
next
  case (4 c rest')
  then show ?case by simp
qed

text \<open>
  The truncation the decoder does detect. For a well-formed tree, a prefix of the encoding
  that stops at least one byte short of the payload of the text content at the very end (any
  proper prefix, when the encoding does not end with a text content) makes \<open>decodeElement\<close>
  throw "incomplete number": the next read is a \<open>decodeNumber\<close> on an exhausted buffer.
  Longer proper prefixes are the case of the theorem on \<open>PLAIN\<close> above.
\<close>

lemma cut_before_final_payload_rejected:
  assumes "wellFormed (newXMLConverter textEncode textDecode options (Inr [])) e" "depth e \<le> fuel"
    and "k < length (accumulator (encodeElement e (newXMLConverter textEncode textDecode options (Inr []))))
             - tailPayload (newXMLConverter textEncode textDecode options (Inr [])) e"
  shows "decodeElement fuel
           (newXMLConverter textEncode textDecode options
              (Inr (take k (accumulator (encodeElement e (newXMLConverter textEncode textDecode options (Inr [])))))))
         = Some (Inl IncompleteNumber)"
proof -
  let ?c = "newXMLConverter textEncode textDecode options (Inr [])"
  let ?bytes = "elementBytes ?c e"
  have acc: "accumulator (encodeElement e ?c) = ?bytes"
    by (simp add: encodeElement_append) (simp add: newXMLConverter_def)
  have c: "newXMLConverter textEncode textDecode options (Inr bs) = ?c\<lparr>binaryData := bs\<rparr>" for bs
    by (simp add: newXMLConverter_def)
  have k: "k < length ?bytes - tailPayload ?c e" using assms(3) unfolding acc .
  have split: "?bytes = take k ?bytes @ drop k ?bytes" by simp
  have ne: "drop k ?bytes \<noteq> []" using k by simp
  have long: "\<not> length (drop k ?bytes) \<le> tailPayload ?c e" using k by simp
  from decodeElement_cut(1)[OF assms(1,2) split ne] long
  have "decodeElement fuel (?c\<lparr>binaryData := take k ?bytes\<rparr>) = Some (Inl IncompleteNumber)"
    by blast
  then show ?thesis unfolding acc c[of "take k ?bytes"] .
qed

end
